theory Spec2Isabelle
  imports Complex_Main "HOL-Library.Word" "HOL-Library.AList"
begin

section \<open>The diff classification of \<open>UpdaterApp._scan_all\<close>\<close>

text \<open>
  A scan result is a Python dict from relative path to \<open>{"is_dir": ..., "hash": ...}\<close>.
  Python dicts keep insertion order and hold each key once, so the dict is an association
  list in insertion order whose keys are distinct (\<open>dict_ok\<close>).
\<close>

record meta =
  is_dir :: bool
  hash :: string

type_synonym pathmap = "(string \<times> meta) list"

definition dict_ok :: "pathmap \<Rightarrow> bool" where
  "dict_ok m = distinct (map fst m)"

text \<open>\<open>class FileMeta\<close>: a relative path and a directory flag.\<close>

datatype FileMeta = FileMeta (rel_path: string) (fm_is_dir: bool)

text \<open>The four lists \<open>deletes, adds, replaces, ignores\<close> built by \<open>_scan_all\<close>.\<close>

record diff_result =
  deletes :: "FileMeta list"
  adds :: "FileMeta list"
  replaces :: "FileMeta list"
  ignores :: "FileMeta list"

text \<open>
  First loop: \<open>for mfp, mmeta in mod_map.items(): if mfp not in repo_map:
  deletes.append(FileMeta(mfp, mmeta["is_dir"]))\<close>.
\<close>

fun delete_loop :: "pathmap \<Rightarrow> pathmap \<Rightarrow> FileMeta list \<Rightarrow> FileMeta list" where
  "delete_loop [] repo_map acc = acc"
| "delete_loop ((mfp, mmeta) # rest) repo_map acc =
     (if map_of repo_map mfp = None
      then delete_loop rest repo_map (acc @ [FileMeta mfp (is_dir mmeta)])
      else delete_loop rest repo_map acc)"

text \<open>
  Second loop: \<open>for rfp, rmeta in repo_map.items(): if rfp not in mod_map:
  adds.append(FileMeta(rfp, rmeta["is_dir"]))\<close>.
\<close>

fun add_loop :: "pathmap \<Rightarrow> pathmap \<Rightarrow> FileMeta list \<Rightarrow> FileMeta list" where
  "add_loop [] mod_map acc = acc"
| "add_loop ((rfp, rmeta) # rest) mod_map acc =
     (if map_of mod_map rfp = None
      then add_loop rest mod_map (acc @ [FileMeta rfp (is_dir rmeta)])
      else add_loop rest mod_map acc)"

text \<open>
  Third loop, over the keys present in both maps: a reference file whose hash differs
  from the live entry's hash goes to \<open>replaces\<close>; otherwise, when the two
  \<open>is_dir\<close> flags agree, the key goes to \<open>ignores\<close>; otherwise nowhere.
\<close>

fun common_loop ::
  "pathmap \<Rightarrow> pathmap \<Rightarrow> FileMeta list \<times> FileMeta list \<Rightarrow> FileMeta list \<times> FileMeta list" where
  "common_loop [] mod_map (rs, igs) = (rs, igs)"
| "common_loop ((rfp, rmeta) # rest) mod_map (rs, igs) =
     (case map_of mod_map rfp of
        None \<Rightarrow> common_loop rest mod_map (rs, igs)
      | Some mmeta \<Rightarrow>
          if \<not> is_dir rmeta \<and> hash rmeta \<noteq> hash mmeta
          then common_loop rest mod_map (rs @ [FileMeta rfp False], igs)
          else if is_dir rmeta = is_dir mmeta
          then common_loop rest mod_map (rs, igs @ [FileMeta rfp (is_dir rmeta)])
          else common_loop rest mod_map (rs, igs))"

definition scan_all_diff :: "pathmap \<Rightarrow> pathmap \<Rightarrow> diff_result" where
  "scan_all_diff mod_map repo_map =
     (let ds = delete_loop mod_map repo_map [];
          as = add_loop repo_map mod_map [];
          ri = common_loop repo_map mod_map ([], [])
      in \<lparr>deletes = ds, adds = as, replaces = fst ri, ignores = snd ri\<rparr>)"

definition keys :: "pathmap \<Rightarrow> string set" where
  "keys m = fst ` set m"

subsection \<open>The loops as list comprehensions\<close>

lemma delete_loop_eq:
  "delete_loop m r acc =
     acc @ map (\<lambda>(k, v). FileMeta k (is_dir v)) (filter (\<lambda>(k, v). map_of r k = None) m)"
  by (induction m arbitrary: acc) auto

lemma add_loop_eq:
  "add_loop r m acc =
     acc @ map (\<lambda>(k, v). FileMeta k (is_dir v)) (filter (\<lambda>(k, v). map_of m k = None) r)"
  by (induction r arbitrary: acc) auto

definition is_replace :: "pathmap \<Rightarrow> string \<times> meta \<Rightarrow> bool" where
  "is_replace mod_map = (\<lambda>(k, rm).
     (case map_of mod_map k of None \<Rightarrow> False
      | Some mm \<Rightarrow> \<not> is_dir rm \<and> hash rm \<noteq> hash mm))"

definition is_ignore :: "pathmap \<Rightarrow> string \<times> meta \<Rightarrow> bool" where
  "is_ignore mod_map = (\<lambda>(k, rm).
     (case map_of mod_map k of None \<Rightarrow> False
      | Some mm \<Rightarrow> \<not> (\<not> is_dir rm \<and> hash rm \<noteq> hash mm) \<and> is_dir rm = is_dir mm))"

lemma common_loop_eq:
  "common_loop r m (rs, igs) =
     (rs @ map (\<lambda>(k, v). FileMeta k False) (filter (is_replace m) r),
      igs @ map (\<lambda>(k, v). FileMeta k (is_dir v)) (filter (is_ignore m) r))"
proof (induction r arbitrary: rs igs)
  case Nil
  show ?case by simp
next
  case (Cons p r)
  obtain k rm where p: "p = (k, rm)" by (cases p)
  show ?case
    by (cases "map_of m k") (simp_all add: Cons.IH p is_replace_def is_ignore_def)
qed

lemma rel_path_deletes:
  "map rel_path (deletes (scan_all_diff a b)) =
     filter (\<lambda>k. map_of b k = None) (map fst a)"
  by (simp add: scan_all_diff_def Let_def delete_loop_eq filter_map comp_def case_prod_unfold)

lemma rel_path_adds:
  "map rel_path (adds (scan_all_diff a b)) =
     filter (\<lambda>k. map_of a k = None) (map fst b)"
  by (simp add: scan_all_diff_def Let_def add_loop_eq filter_map comp_def case_prod_unfold)

lemma rel_path_replaces:
  "map rel_path (replaces (scan_all_diff a b)) = map fst (filter (is_replace a) b)"
  by (simp add: scan_all_diff_def Let_def common_loop_eq comp_def case_prod_unfold)

lemma rel_path_ignores:
  "map rel_path (ignores (scan_all_diff a b)) = map fst (filter (is_ignore a) b)"
  by (simp add: scan_all_diff_def Let_def common_loop_eq comp_def case_prod_unfold)

lemma map_of_None_keys: "map_of m k = None \<longleftrightarrow> k \<notin> keys m"
  by (simp add: keys_def map_of_eq_None_iff)

lemma map_of_Some_mem: "dict_ok m \<Longrightarrow> map_of m k = Some v \<longleftrightarrow> (k, v) \<in> set m"
  by (simp add: dict_ok_def)

lemma set_deletes:
  "set (deletes (scan_all_diff a b)) =
     (\<lambda>(k, m). FileMeta k (is_dir m)) ` {(k, m). (k, m) \<in> set a \<and> k \<notin> keys b}"
  by (auto simp: scan_all_diff_def Let_def delete_loop_eq map_of_None_keys)

lemma set_adds:
  "set (adds (scan_all_diff a b)) =
     (\<lambda>(k, m). FileMeta k (is_dir m)) ` {(k, m). (k, m) \<in> set b \<and> k \<notin> keys a}"
  by (auto simp: scan_all_diff_def Let_def add_loop_eq map_of_None_keys)

lemma set_replaces:
  assumes "dict_ok b"
  shows "set (replaces (scan_all_diff a b)) =
     {FileMeta k False | k rm mm.
        map_of b k = Some rm \<and> map_of a k = Some mm \<and> \<not> is_dir rm \<and> hash rm \<noteq> hash mm}"
proof -
  have "set (replaces (scan_all_diff a b)) =
          (\<lambda>(k, v). FileMeta k False) ` {p \<in> set b. is_replace a p}"
    by (simp add: scan_all_diff_def Let_def common_loop_eq)
  also have "\<dots> = {FileMeta k False | k rm mm.
        (k, rm) \<in> set b \<and> map_of a k = Some mm \<and> \<not> is_dir rm \<and> hash rm \<noteq> hash mm}"
    by (auto simp: is_replace_def image_iff split: option.splits)
  finally show ?thesis
    using assms by (simp add: map_of_Some_mem)
qed

lemma keys_deletes: "rel_path ` set (deletes (scan_all_diff a b)) = keys a - keys b"
proof -
  have "rel_path ` set (deletes (scan_all_diff a b)) =
          set (map rel_path (deletes (scan_all_diff a b)))"
    by simp
  also have "\<dots> = keys a - keys b"
    unfolding rel_path_deletes by (auto simp: map_of_None_keys keys_def)
  finally show ?thesis .
qed

lemma keys_adds: "rel_path ` set (adds (scan_all_diff a b)) = keys b - keys a"
proof -
  have "rel_path ` set (adds (scan_all_diff a b)) =
          set (map rel_path (adds (scan_all_diff a b)))"
    by simp
  also have "\<dots> = keys b - keys a"
    unfolding rel_path_adds by (auto simp: map_of_None_keys keys_def)
  finally show ?thesis .
qed

lemma keys_replaces:
  "rel_path ` set (replaces (scan_all_diff a b)) = fst ` {p \<in> set b. is_replace a p}"
proof -
  have "rel_path ` set (replaces (scan_all_diff a b)) =
          set (map rel_path (replaces (scan_all_diff a b)))"
    by simp
  also have "\<dots> = fst ` {p \<in> set b. is_replace a p}"
    unfolding rel_path_replaces by simp
  finally show ?thesis .
qed

lemma keys_ignores:
  "rel_path ` set (ignores (scan_all_diff a b)) = fst ` {p \<in> set b. is_ignore a p}"
proof -
  have "rel_path ` set (ignores (scan_all_diff a b)) =
          set (map rel_path (ignores (scan_all_diff a b)))"
    by simp
  also have "\<dots> = fst ` {p \<in> set b. is_ignore a p}"
    unfolding rel_path_ignores by simp
  finally show ?thesis .
qed

lemma is_replace_key: "is_replace a (k, rm) \<Longrightarrow> k \<in> keys a"
  by (auto simp: is_replace_def keys_def split: option.splits dest: map_of_SomeD intro: rev_image_eqI)

lemma is_ignore_key: "is_ignore a (k, rm) \<Longrightarrow> k \<in> keys a"
  by (auto simp: is_ignore_def keys_def split: option.splits dest: map_of_SomeD intro: rev_image_eqI)

lemma replace_not_ignore: "is_replace a p \<Longrightarrow> \<not> is_ignore a p"
  by (cases p) (auto simp: is_replace_def is_ignore_def split: option.splits)

subsection \<open>Concrete maps\<close>

text \<open>
  The scenario of the specification: live = \<open>{a.txt: h1, b.txt: h2}\<close>, reference =
  \<open>{a.txt: h1, c.txt: h3}\<close>.
\<close>

definition scenario_live :: pathmap where
  "scenario_live =
     [(''a.txt'', \<lparr>is_dir = False, hash = ''h1''\<rparr>), (''b.txt'', \<lparr>is_dir = False, hash = ''h2''\<rparr>)]"

definition scenario_ref :: pathmap where
  "scenario_ref =
     [(''a.txt'', \<lparr>is_dir = False, hash = ''h1''\<rparr>), (''c.txt'', \<lparr>is_dir = False, hash = ''h3''\<rparr>)]"

text \<open>
  A path that is a directory in the live tree and a file in the reference. A scan gives
  a directory the empty hash and a file a 16-digit hash, so the two hashes differ.
\<close>

definition dir_live :: pathmap where
  "dir_live = [(''Config'', \<lparr>is_dir = True, hash = []\<rparr>)]"

definition file_ref :: pathmap where
  "file_ref = [(''Config'', \<lparr>is_dir = False, hash = ''00000000000000ff''\<rparr>)]"

text \<open>The converse: a file in the live tree that is a directory in the reference.\<close>

definition file_live :: pathmap where
  "file_live = [(''Config'', \<lparr>is_dir = False, hash = ''00000000000000ff''\<rparr>)]"

definition dir_ref :: pathmap where
  "dir_ref = [(''Config'', \<lparr>is_dir = True, hash = []\<rparr>)]"

subsection \<open>Claims about the diff\<close>

text \<open>
  C1, as stated, fails: \<open>replaces\<close> is not restricted to file/file pairs. With a
  directory in the live map and a file of the same name in the reference, the key is a
  replacement although the live entry is a directory.
\<close>

theorem replaces_dir_by_file_counterexample:
  "replaces (scan_all_diff dir_live file_ref) = [FileMeta ''Config'' False]
   \<and> map_of dir_live ''Config'' = Some \<lparr>is_dir = True, hash = []\<rparr>
   \<and> map_of file_ref ''Config'' = Some \<lparr>is_dir = False, hash = ''00000000000000ff''\<rparr>"
  by (simp add: scan_all_diff_def dir_live_def file_ref_def)

text \<open>
  C1 (amended): for every live map \<open>a\<close> and reference map \<open>b\<close>, the deletions are the
  entries of \<open>a\<close> whose key is not in \<open>b\<close>, with \<open>a\<close>'s \<open>is_dir\<close> flag; the additions
  are the entries of \<open>b\<close> whose key is not in \<open>a\<close>, with \<open>b\<close>'s flag; and the
  replacements are exactly the keys of both maps whose reference entry is a file with a
  hash different from the live entry's hash (the live entry may be a directory), each
  with the flag \<open>False\<close>.
\<close>

theorem diff_classification:
  assumes "dict_ok a" and "dict_ok b"
  shows "rel_path ` set (deletes (scan_all_diff a b)) = keys a - keys b
     \<and> set (deletes (scan_all_diff a b)) =
         (\<lambda>(k, m). FileMeta k (is_dir m)) ` {(k, m). (k, m) \<in> set a \<and> k \<notin> keys b}
     \<and> rel_path ` set (adds (scan_all_diff a b)) = keys b - keys a
     \<and> set (adds (scan_all_diff a b)) =
         (\<lambda>(k, m). FileMeta k (is_dir m)) ` {(k, m). (k, m) \<in> set b \<and> k \<notin> keys a}
     \<and> set (replaces (scan_all_diff a b)) =
         {FileMeta k False | k rm mm.
            map_of b k = Some rm \<and> map_of a k = Some mm \<and> \<not> is_dir rm \<and> hash rm \<noteq> hash mm}"
  by (intro conjI keys_deletes set_deletes keys_adds set_adds set_replaces [OF assms(2)])

theorem diff_classification_witness:
  "dict_ok scenario_live \<and> dict_ok scenario_ref
   \<and> rel_path ` set (deletes (scan_all_diff scenario_live scenario_ref)) =
       keys scenario_live - keys scenario_ref
   \<and> rel_path ` set (adds (scan_all_diff scenario_live scenario_ref)) =
       keys scenario_ref - keys scenario_live
   \<and> deletes (scan_all_diff scenario_live scenario_ref) = [FileMeta ''b.txt'' False]
   \<and> adds (scan_all_diff scenario_live scenario_ref) = [FileMeta ''c.txt'' False]
   \<and> replaces (scan_all_diff scenario_live scenario_ref) = []
   \<and> ignores (scan_all_diff scenario_live scenario_ref) = [FileMeta ''a.txt'' False]"
proof -
  have a: "dict_ok scenario_live" by (simp add: dict_ok_def scenario_live_def)
  have b: "dict_ok scenario_ref" by (simp add: dict_ok_def scenario_ref_def)
  note t = diff_classification [OF a b]
  have v: "deletes (scan_all_diff scenario_live scenario_ref) = [FileMeta ''b.txt'' False]"
       "adds (scan_all_diff scenario_live scenario_ref) = [FileMeta ''c.txt'' False]"
       "replaces (scan_all_diff scenario_live scenario_ref) = []"
       "ignores (scan_all_diff scenario_live scenario_ref) = [FileMeta ''a.txt'' False]"
    by (simp_all add: scan_all_diff_def scenario_live_def scenario_ref_def)
  show ?thesis
    by (intro conjI a b v t [THEN conjunct1] t [THEN conjunct2, THEN conjunct2, THEN conjunct1])
qed

text \<open>
  C2, as stated, fails: a key whose flags disagree is not always dropped. A directory of
  the live tree that is a file in the reference is placed in \<open>replaces\<close>.
\<close>

theorem type_mismatch_replaced_counterexample:
  "map_of dir_live ''Config'' = Some \<lparr>is_dir = True, hash = []\<rparr>
   \<and> map_of file_ref ''Config'' = Some \<lparr>is_dir = False, hash = ''00000000000000ff''\<rparr>
   \<and> ''Config'' \<in> rel_path ` set (replaces (scan_all_diff dir_live file_ref))"
  by (simp add: scan_all_diff_def dir_live_def file_ref_def)

text \<open>
  C2 (amended): for every relPath present in both maps whose \<open>is_dir\<close> flags disagree,
  the key is in none of deletions, additions and ignores; it is in replacements exactly
  when the reference entry is a file whose hash differs from the live entry's hash.
  So a file that became a directory is in none of the four buckets, and a directory
  that became a file is a replacement whenever the hashes differ.
\<close>

theorem type_mismatch_buckets:
  assumes "dict_ok a" and "dict_ok b"
    and "map_of a k = Some mm" and "map_of b k = Some rm"
    and "is_dir mm \<noteq> is_dir rm"
  shows "k \<notin> rel_path ` set (deletes (scan_all_diff a b))
     \<and> k \<notin> rel_path ` set (adds (scan_all_diff a b))
     \<and> k \<notin> rel_path ` set (ignores (scan_all_diff a b))
     \<and> (k \<in> rel_path ` set (replaces (scan_all_diff a b))
          \<longleftrightarrow> \<not> is_dir rm \<and> hash rm \<noteq> hash mm)"
proof -
  have ka: "k \<in> keys a" and kb: "k \<in> keys b"
    using assms(3,4) by (auto simp: keys_def dest!: map_of_SomeD intro: rev_image_eqI)
  have mem: "(k, v) \<in> set b \<longleftrightarrow> v = rm" for v
  proof -
    have "(k, v) \<in> set b \<longleftrightarrow> map_of b k = Some v"
      using map_of_Some_mem [OF assms(2)] by simp
    then show ?thesis using assms(4) by auto
  qed
  have 1: "k \<notin> rel_path ` set (deletes (scan_all_diff a b))"
    unfolding keys_deletes using kb by simp
  have 2: "k \<notin> rel_path ` set (adds (scan_all_diff a b))"
    unfolding keys_adds using ka by simp
  have 3: "k \<notin> rel_path ` set (ignores (scan_all_diff a b))"
    unfolding keys_ignores using assms(3,5) mem
    by (auto simp: is_ignore_def)
  have 4: "k \<in> rel_path ` set (replaces (scan_all_diff a b))
          \<longleftrightarrow> \<not> is_dir rm \<and> hash rm \<noteq> hash mm"
    unfolding keys_replaces using assms(3) mem
    by (auto simp: is_replace_def image_iff)
  from 1 2 3 4 show ?thesis by simp
qed

theorem type_mismatch_buckets_witness:
  "dict_ok file_live \<and> dict_ok dir_ref
   \<and> map_of file_live ''Config'' = Some \<lparr>is_dir = False, hash = ''00000000000000ff''\<rparr>
   \<and> map_of dir_ref ''Config'' = Some \<lparr>is_dir = True, hash = []\<rparr>
   \<and> ''Config'' \<notin> rel_path ` set (deletes (scan_all_diff file_live dir_ref))
   \<and> ''Config'' \<notin> rel_path ` set (adds (scan_all_diff file_live dir_ref))
   \<and> ''Config'' \<notin> rel_path ` set (ignores (scan_all_diff file_live dir_ref))
   \<and> ''Config'' \<notin> rel_path ` set (replaces (scan_all_diff file_live dir_ref))"
proof -
  have a: "dict_ok file_live" by (simp add: dict_ok_def file_live_def)
  have b: "dict_ok dir_ref" by (simp add: dict_ok_def dir_ref_def)
  have ma: "map_of file_live ''Config'' = Some \<lparr>is_dir = False, hash = ''00000000000000ff''\<rparr>"
    by (simp add: file_live_def)
  have mb: "map_of dir_ref ''Config'' = Some \<lparr>is_dir = True, hash = []\<rparr>"
    by (simp add: dir_ref_def)
  show ?thesis
    using a b ma mb type_mismatch_buckets [OF a b ma mb] by simp
qed

text \<open>
  C7: for every pair of maps, no relPath is in more than one of the four buckets, and
  none is twice in one bucket: the keys of the four lists, one after the other, are
  distinct.
\<close>

theorem buckets_exclusive:
  assumes "dict_ok a" and "dict_ok b"
  shows "distinct (map rel_path
     (deletes (scan_all_diff a b) @ adds (scan_all_diff a b)
      @ replaces (scan_all_diff a b) @ ignores (scan_all_diff a b)))"
proof -
  let ?d = "scan_all_diff a b"
  have da: "distinct (map fst a)" and db: "distinct (map fst b)"
    using assms by (simp_all add: dict_ok_def)
  have d1: "distinct (map rel_path (deletes ?d))"
    unfolding rel_path_deletes using da by simp
  have d2: "distinct (map rel_path (adds ?d))"
    unfolding rel_path_adds using db by simp
  have d3: "distinct (map rel_path (replaces ?d))"
    unfolding rel_path_replaces using db by (simp add: distinct_map_filter)
  have d4: "distinct (map rel_path (ignores ?d))"
    unfolding rel_path_ignores using db by (simp add: distinct_map_filter)
  have s1: "set (map rel_path (deletes ?d)) = keys a - keys b"
    using keys_deletes [of a b] by simp
  have s2: "set (map rel_path (adds ?d)) = keys b - keys a"
    using keys_adds [of a b] by simp
  have s3: "set (map rel_path (replaces ?d)) \<subseteq> keys a \<inter> keys b"
    unfolding rel_path_replaces by (auto simp: keys_def dest: is_replace_key [unfolded keys_def])
  have s4: "set (map rel_path (ignores ?d)) \<subseteq> keys a \<inter> keys b"
    unfolding rel_path_ignores by (auto simp: keys_def dest: is_ignore_key [unfolded keys_def])
  have s34: "set (map rel_path (replaces ?d)) \<inter> set (map rel_path (ignores ?d)) = {}"
  proof (rule ccontr)
    assume "\<not> ?thesis"
    then obtain k where kr: "k \<in> set (map rel_path (replaces ?d))"
      and ki: "k \<in> set (map rel_path (ignores ?d))" by blast
    from kr obtain v where v: "(k, v) \<in> set b" "is_replace a (k, v)"
      unfolding rel_path_replaces by auto
    from ki obtain w where w: "(k, w) \<in> set b" "is_ignore a (k, w)"
      unfolding rel_path_ignores by auto
    from db v(1) w(1) have "v = w"
      by (meson eq_key_imp_eq_value)
    with v(2) w(2) show False using replace_not_ignore by blast
  qed
  show ?thesis
    unfolding map_append distinct_append
    using d1 d2 d3 d4 s1 s2 s3 s4 s34 by (simp only: set_append) blast
qed

theorem buckets_exclusive_witness:
  "dict_ok scenario_live \<and> dict_ok scenario_ref
   \<and> distinct (map rel_path
       (deletes (scan_all_diff scenario_live scenario_ref)
        @ adds (scan_all_diff scenario_live scenario_ref)
        @ replaces (scan_all_diff scenario_live scenario_ref)
        @ ignores (scan_all_diff scenario_live scenario_ref)))"
proof -
  have a: "dict_ok scenario_live" by (simp add: dict_ok_def scenario_live_def)
  have b: "dict_ok scenario_ref" by (simp add: dict_ok_def scenario_ref_def)
  show ?thesis using a b buckets_exclusive [OF a b] by simp
qed

section \<open>The content hasher \<open>hash_file\<close>\<close>

type_synonym byte = "8 word"

text \<open>
  \<open>xxhash.xxh3_64\<close> is a library outside the repository: the accumulator is a
  parameter. \<open>xxh3_64()\<close> makes a fresh accumulator, \<open>h.update(chunk)\<close> feeds it a
  chunk, \<open>h.intdigest()\<close> reads the 64-bit digest.
\<close>

record 'h xxh3_64 =
  fresh :: 'h
  update :: "byte list \<Rightarrow> 'h \<Rightarrow> 'h"
  intdigest :: "'h \<Rightarrow> 64 word"

text \<open>
  \<open>open(path, "rb")\<close> either raises (with a message) or gives a handle; each
  \<open>f.read(8192)\<close> on the handle either raises or returns a chunk, and returns the
  empty chunk once the handle is exhausted. A handle is the list of the outcomes of
  its successive reads.
\<close>

datatype opened = OpenError string | Handle "(string + byte list) list"

text \<open>The \<open>while True\<close> loop: stop at the first empty chunk; a raising read ends it.\<close>

fun read_loop :: "'h xxh3_64 \<Rightarrow> (string + byte list) list \<Rightarrow> 'h \<Rightarrow> string + 'h" where
  "read_loop X [] h = Inr h"
| "read_loop X (Inl e # rest) h = Inl e"
| "read_loop X (Inr chunk # rest) h =
     (if chunk = [] then Inr h else read_loop X rest (update X chunk h))"

text \<open>Python's \<open>format(n, "x")\<close>: the lowercase hexadecimal digits of \<open>n\<close>.\<close>

definition hex_digit :: "nat \<Rightarrow> char" where
  "hex_digit d = ''0123456789abcdef'' ! d"

function hex_str :: "nat \<Rightarrow> string" where
  "hex_str n = (if n < 16 then [hex_digit n] else hex_str (n div 16) @ [hex_digit (n mod 16)])"
  by pat_completeness auto
termination
  by (relation "measure id") auto

declare hex_str.simps [simp del]

text \<open>\<open>f"{n:016x}"\<close>: zero-padded on the left to at least 16 characters.\<close>

definition format_016x :: "nat \<Rightarrow> string" where
  "format_016x n = replicate (16 - length (hex_str n)) CHR ''0'' @ hex_str n"

text \<open>The body of the \<open>try\<close>, and the function with its \<open>except Exception\<close>.\<close>

definition hash_file_try :: "'h xxh3_64 \<Rightarrow> opened \<Rightarrow> string + string" where
  "hash_file_try X f =
     (case f of
        OpenError e \<Rightarrow> Inl e
      | Handle reads \<Rightarrow>
          (case read_loop X reads (fresh X) of
             Inl e \<Rightarrow> Inl e
           | Inr h \<Rightarrow> Inr (format_016x (unat (intdigest X h)))))"

definition hash_file :: "'h xxh3_64 \<Rightarrow> opened \<Rightarrow> string" where
  "hash_file X f =
     (case hash_file_try X f of Inl e \<Rightarrow> ''ERR('' @ e @ '')'' | Inr s \<Rightarrow> s)"

text \<open>
  A readable file of content \<open>d\<close>: its reads return \<open>d\<close> in chunks of \<open>n\<close> bytes, the
  last one possibly shorter.
\<close>

function chunks :: "nat \<Rightarrow> 'a list \<Rightarrow> 'a list list" where
  "chunks n xs = (if n = 0 \<or> xs = [] then [] else take n xs # chunks n (drop n xs))"
  by pat_completeness auto
termination
  by (relation "measure (\<lambda>(n, xs). length xs)") auto

declare chunks.simps [simp del]

definition readable :: "byte list \<Rightarrow> opened" where
  "readable d = Handle (map Inr (chunks 8192 d))"

text \<open>The value a string of hexadecimal digits denotes.\<close>

definition hex_digit_value :: "char \<Rightarrow> nat" where
  "hex_digit_value c =
     (if of_char c < (58::nat) then of_char c - 48 else of_char c - 87)"

definition hex_value :: "string \<Rightarrow> nat" where
  "hex_value s = foldl (\<lambda>acc c. 16 * acc + hex_digit_value c) 0 s"

subsection \<open>Chunks\<close>

lemma concat_chunks: "0 < n \<Longrightarrow> concat (chunks n xs) = xs"
proof (induction n xs rule: chunks.induct)
  case (1 n xs)
  then show ?case by (subst chunks.simps) auto
qed

lemma chunks_sizes: "c \<in> set (chunks n xs) \<Longrightarrow> c \<noteq> [] \<and> length c \<le> n"
proof (induction n xs rule: chunks.induct)
  case (1 n xs)
  from "1.prems" have ne: "\<not> (n = 0 \<or> xs = [])"
    by (subst (asm) chunks.simps) (auto split: if_splits)
  from "1.prems" ne have "c = take n xs \<or> c \<in> set (chunks n (drop n xs))"
    by (subst (asm) chunks.simps) auto
  then show ?case
  proof
    assume "c = take n xs"
    with ne show ?thesis by auto
  next
    assume "c \<in> set (chunks n (drop n xs))"
    with "1.IH" ne show ?thesis by blast
  qed
qed

lemma list_all_chunks: "list_all (\<lambda>c. c \<noteq> [] \<and> length c \<le> n) (chunks n xs)"
  using chunks_sizes by (auto simp: list_all_iff)

lemma read_loop_chunks:
  "list_all (\<lambda>c. c \<noteq> []) cs \<Longrightarrow>
   read_loop X (map Inr cs @ rest) h = read_loop X rest (fold (update X) cs h)"
  by (induction cs arbitrary: h) auto

subsection \<open>The fixed-width hexadecimal format\<close>

lemma hex_str_length: "0 < k \<Longrightarrow> n < 16 ^ k \<Longrightarrow> length (hex_str n) \<le> k"
proof (induction n arbitrary: k rule: hex_str.induct)
  case (1 n)
  show ?case
  proof (cases "n < 16")
    case True
    with "1.prems" show ?thesis by (subst hex_str.simps) simp
  next
    case False
    with "1.prems" obtain j where k: "k = Suc j" by (cases k) auto
    have "0 < j"
    proof (rule ccontr)
      assume "\<not> 0 < j"
      with k "1.prems" False show False by simp
    qed
    moreover have "n div 16 < 16 ^ j"
      using "1.prems" k by (simp add: less_mult_imp_div_less mult.commute)
    ultimately have "length (hex_str (n div 16)) \<le> j"
      using "1.IH" False by blast
    with False k show ?thesis by (subst hex_str.simps) simp
  qed
qed

lemma hex_str_nonempty: "hex_str n \<noteq> []"
  by (subst hex_str.simps) simp

lemma length_format_016x: "n < 2 ^ 64 \<Longrightarrow> length (format_016x n) = 16"
proof -
  assume "n < 2 ^ 64"
  then have "n < 16 ^ 16" by simp
  then have "length (hex_str n) \<le> 16" by (intro hex_str_length) simp_all
  then show ?thesis by (simp add: format_016x_def)
qed

lemma hex_digit_in: "d < 16 \<Longrightarrow> hex_digit d \<in> set ''0123456789abcdef''"
  unfolding hex_digit_def by (rule nth_mem) simp

lemma set_hex_str: "set (hex_str n) \<subseteq> set ''0123456789abcdef''"
proof (induction n rule: hex_str.induct)
  case (1 n)
  show ?case
  proof (cases "n < 16")
    case True
    then show ?thesis using hex_digit_in [of n] by (subst hex_str.simps) simp
  next
    case False
    have "hex_digit (n mod 16) \<in> set ''0123456789abcdef''"
      by (rule hex_digit_in) simp
    with "1.IH" False show ?thesis by (subst hex_str.simps) simp
  qed
qed

lemma set_format_016x: "set (format_016x n) \<subseteq> set ''0123456789abcdef''"
  using set_hex_str [of n] by (auto simp: format_016x_def)

lemma hex_digit_value_digit: "d < 16 \<Longrightarrow> hex_digit_value (hex_digit d) = d"
proof -
  assume "d < 16"
  then have "d = 0 \<or> d = 1 \<or> d = 2 \<or> d = 3 \<or> d = 4 \<or> d = 5 \<or> d = 6 \<or> d = 7
      \<or> d = 8 \<or> d = 9 \<or> d = 10 \<or> d = 11 \<or> d = 12 \<or> d = 13 \<or> d = 14 \<or> d = 15"
    by arith
  then show ?thesis
    by (elim disjE) (simp_all add: hex_digit_value_def hex_digit_def)
qed

lemma hex_value_append: "hex_value (s @ [c]) = 16 * hex_value s + hex_digit_value c"
  by (simp add: hex_value_def)

lemma hex_value_hex_str: "hex_value (hex_str n) = n"
proof (induction n rule: hex_str.induct)
  case (1 n)
  show ?case
  proof (cases "n < 16")
    case True
    then show ?thesis
      by (subst hex_str.simps) (simp add: hex_value_def hex_digit_value_digit)
  next
    case False
    with "1.IH" show ?thesis
      by (subst hex_str.simps) (simp add: hex_value_append hex_digit_value_digit)
  qed
qed

lemma hex_value_zeros: "hex_value (replicate k CHR ''0'' @ s) = hex_value s"
proof -
  have "foldl (\<lambda>acc c. 16 * acc + hex_digit_value c) 0 (replicate k CHR ''0'') = 0"
    by (induction k) (simp_all add: hex_digit_value_def)
  then show ?thesis by (simp add: hex_value_def)
qed

lemma hex_value_format_016x: "hex_value (format_016x n) = n"
  by (simp add: format_016x_def hex_value_zeros hex_value_hex_str)

subsection \<open>The claim about the hasher\<close>

text \<open>
  C5: \<open>hash_file\<close> returns a string on every input and never raises. When \<open>open\<close>
  raises, or a read raises after any number of chunks, the result is the sentinel
  \<open>ERR(message)\<close>. On a readable file of content \<open>d\<close> the result is the \<open>016x\<close> format of
  the digest of the accumulator fed with the chunks of \<open>d\<close>, which are non-empty, at most
  8192 bytes long and concatenate to \<open>d\<close>. The format of a 64-bit digest has exactly 16
  characters, all of them lowercase hexadecimal digits, and denotes the digest.
\<close>

theorem hash_file_total:
  "hash_file X (OpenError e) = ''ERR('' @ e @ '')''
   \<and> hash_file X (Handle (map Inr (chunks 8192 d) @ Inl e # rest)) = ''ERR('' @ e @ '')''
   \<and> hash_file X (readable d) =
       format_016x (unat (intdigest X (fold (update X) (chunks 8192 d) (fresh X))))
   \<and> concat (chunks 8192 d) = d
   \<and> list_all (\<lambda>c. c \<noteq> [] \<and> length c \<le> 8192) (chunks 8192 d)
   \<and> length (hash_file X (readable d)) = 16
   \<and> set (hash_file X (readable d)) \<subseteq> set ''0123456789abcdef''
   \<and> hex_value (hash_file X (readable d)) =
       unat (intdigest X (fold (update X) (chunks 8192 d) (fresh X)))"
proof -
  have ne: "list_all (\<lambda>c. c \<noteq> []) (chunks 8192 d)"
    using chunks_sizes [of _ 8192 d] by (auto simp: list_all_iff)
  have ok: "hash_file X (readable d) =
       format_016x (unat (intdigest X (fold (update X) (chunks 8192 d) (fresh X))))"
    using read_loop_chunks [OF ne, of X "[]" "fresh X"]
    by (simp add: hash_file_def hash_file_try_def readable_def)
  have err: "hash_file X (Handle (map Inr (chunks 8192 d) @ Inl e # rest)) = ''ERR('' @ e @ '')''"
    using read_loop_chunks [OF ne, of X "Inl e # rest" "fresh X"]
    by (simp add: hash_file_def hash_file_try_def)
  have lt: "unat (intdigest X (fold (update X) (chunks 8192 d) (fresh X))) < 2 ^ 64"
    using unsigned_less [of "intdigest X (fold (update X) (chunks 8192 d) (fresh X))", where ?'a = nat]
    by simp
  show ?thesis
    unfolding ok
    by (intro conjI err refl concat_chunks list_all_chunks length_format_016x [OF lt]
          set_format_016x hex_value_format_016x)
       (simp_all add: hash_file_def hash_file_try_def)
qed

section \<open>Directory trees\<close>

text \<open>
  A directory tree on disk: a file with its content, or a directory with its entries in
  listing order. A path is the list of the names from the root of the tree.
\<close>

type_synonym path = "string list"

datatype node = File "byte list" | Dir "(string \<times> node) list"

fun lookup :: "node \<Rightarrow> path \<Rightarrow> node option" where
  "lookup t [] = Some t"
| "lookup (File d) (n # ns) = None"
| "lookup (Dir es) (n # ns) = (case map_of es n of None \<Rightarrow> None | Some c \<Rightarrow> lookup c ns)"

fun is_Dir :: "node \<Rightarrow> bool" where
  "is_Dir (Dir es) = True"
| "is_Dir (File d) = False"

text \<open>
  \<open>os.walk(tree)\<close>: one triple \<open>(dirpath, dirnames, filenames)\<close> per directory, the
  directory first and then its subdirectories in listing order. \<open>dirpath\<close> is kept as
  the path relative to \<open>tree\<close>. On a file or a missing path the walk is empty.
\<close>

definition dirnames :: "(string \<times> node) list \<Rightarrow> string list" where
  "dirnames es = map fst (filter (\<lambda>e. is_Dir (snd e)) es)"

definition filenames :: "(string \<times> node) list \<Rightarrow> string list" where
  "filenames es = map fst (filter (\<lambda>e. \<not> is_Dir (snd e)) es)"

type_synonym triple = "path \<times> string list \<times> string list"

fun walk :: "path \<Rightarrow> node \<Rightarrow> triple list"
  and walk_entries :: "path \<Rightarrow> (string \<times> node) list \<Rightarrow> triple list" where
  "walk base (File d) = []"
| "walk base (Dir es) = (base, dirnames es, filenames es) # walk_entries base es"
| "walk_entries base [] = []"
| "walk_entries base ((n, t) # rest) = walk (base @ [n]) t @ walk_entries base rest"

text \<open>\<open>os.walk(tree, topdown=False)\<close>: the subdirectories first, then the directory.\<close>

fun walk_up :: "path \<Rightarrow> node \<Rightarrow> triple list"
  and walk_up_entries :: "path \<Rightarrow> (string \<times> node) list \<Rightarrow> triple list" where
  "walk_up base (File d) = []"
| "walk_up base (Dir es) = walk_up_entries base es @ [(base, dirnames es, filenames es)]"
| "walk_up_entries base [] = []"
| "walk_up_entries base ((n, t) # rest) = walk_up (base @ [n]) t @ walk_up_entries base rest"

text \<open>
  Path strings. The model joins with \<open>/\<close>, as \<open>os.path\<close> does on POSIX; on Windows
  the separator is the backslash, which the scanner replaces by \<open>/\<close> in its keys.
\<close>

fun join_path :: "path \<Rightarrow> string" where
  "join_path [] = []"
| "join_path [n] = n"
| "join_path (n # m # ns) = n @ ''/'' @ join_path (m # ns)"

text \<open>\<open>os.path.relpath(base, abs_root)\<close> for a directory \<open>base\<close> under the scanned directory.\<close>

definition relpath :: "path \<Rightarrow> string" where
  "relpath base = (if base = [] then ''.'' else join_path base)"

text \<open>\<open>os.path.normpath(os.path.join(rel_base, name))\<close> for a plain name.\<close>

definition normpath_join :: "string \<Rightarrow> string \<Rightarrow> string" where
  "normpath_join rel_base name = (if rel_base = ''.'' then name else rel_base @ ''/'' @ name)"

text \<open>\<open>s.replace("\\", "/")\<close>; the backslash is character \<open>0x5C\<close>.\<close>

definition replace_backslash :: "string \<Rightarrow> string" where
  "replace_backslash s = map (\<lambda>c. if c = CHR 0x5C then CHR ''/'' else c) s"

text \<open>\<open>str.lower\<close>, \<open>str.startswith\<close> and \<open>str.endswith\<close> on ASCII strings.\<close>

definition lower_char :: "char \<Rightarrow> char" where
  "lower_char c =
     (if (65::nat) \<le> of_char c \<and> of_char c \<le> (90::nat) then char_of (of_char c + (32::nat)) else c)"

definition lower :: "string \<Rightarrow> string" where
  "lower s = map lower_char s"

definition startswith :: "string \<Rightarrow> string \<Rightarrow> bool" where
  "startswith s p = (take (length p) s = p)"

definition endswith :: "string \<Rightarrow> string \<Rightarrow> bool" where
  "endswith s p = (length p \<le> length s \<and> drop (length s - length p) s = p)"

section \<open>The scanner \<open>scan_dir_with_hashes\<close>\<close>

text \<open>\<open>open(full_path, "rb")\<close> on the tree: a file reads in chunks of 8192 bytes.\<close>

definition open_rb :: "node \<Rightarrow> path \<Rightarrow> opened" where
  "open_rb tree p =
     (case lookup tree p of
        Some (File d) \<Rightarrow> readable d
      | Some (Dir es) \<Rightarrow> OpenError ''Is a directory''
      | None \<Rightarrow> OpenError ''No such file or directory'')"

text \<open>
  \<open>result[rel_path] = ...\<close> on a dict is \<open>AList.update\<close>: a new key goes to the end, an
  old key keeps its place. The loop over \<open>dirs\<close> and the loop over \<open>files\<close> of one
  directory, and the loop over the walk with its early \<open>continue\<close>:
\<close>

fun scan_dirs :: "bool \<Rightarrow> string \<Rightarrow> string list \<Rightarrow> pathmap \<Rightarrow> pathmap" where
  "scan_dirs filter_garbage rel_base [] result = result"
| "scan_dirs filter_garbage rel_base (d # dirs) result =
     (let rel_path = replace_backslash (normpath_join rel_base d) in
      if filter_garbage \<and> (d \<in> set [''.git'', ''__pycache__''] \<or> endswith (lower d) ''.tmp'')
      then scan_dirs filter_garbage rel_base dirs result
      else scan_dirs filter_garbage rel_base dirs
             (AList.update rel_path \<lparr>is_dir = True, hash = []\<rparr> result))"

fun scan_files ::
  "'h xxh3_64 \<Rightarrow> node \<Rightarrow> bool \<Rightarrow> path \<Rightarrow> string \<Rightarrow> string list \<Rightarrow> pathmap \<Rightarrow> pathmap" where
  "scan_files X tree filter_garbage base rel_base [] result = result"
| "scan_files X tree filter_garbage base rel_base (f # files) result =
     (let rel_path = replace_backslash (normpath_join rel_base f) in
      if filter_garbage \<and>
         (f \<in> set [''.gitignore''] \<or> endswith (lower f) ''.tmp'' \<or> endswith (lower f) ''.log'')
      then scan_files X tree filter_garbage base rel_base files result
      else scan_files X tree filter_garbage base rel_base files
             (AList.update rel_path
                \<lparr>is_dir = False, hash = hash_file X (open_rb tree (base @ [f]))\<rparr> result))"

fun scan_walk :: "'h xxh3_64 \<Rightarrow> node \<Rightarrow> bool \<Rightarrow> triple list \<Rightarrow> pathmap \<Rightarrow> pathmap" where
  "scan_walk X tree filter_garbage [] result = result"
| "scan_walk X tree filter_garbage ((base, dirs, files) # rest) result =
     (let rel_base = relpath base;
          skip_dir = (filter_garbage \<and> (rel_base = ''.git'' \<or> startswith rel_base ''.git''))
      in if skip_dir then scan_walk X tree filter_garbage rest result
         else scan_walk X tree filter_garbage rest
                (scan_files X tree filter_garbage base rel_base files
                   (scan_dirs filter_garbage rel_base dirs result)))"

definition scan_dir_with_hashes :: "'h xxh3_64 \<Rightarrow> node \<Rightarrow> bool \<Rightarrow> pathmap" where
  "scan_dir_with_hashes X tree filter_garbage =
     scan_walk X tree filter_garbage (walk [] tree) []"

subsection \<open>Trees and an accumulator to run the scanner on\<close>

text \<open>
  A stand-in for the external accumulator, to evaluate scans on concrete trees: it adds
  up the bytes. No statement below depends on the digest it computes.
\<close>

definition byte_sum :: "(64 word) xxh3_64" where
  "byte_sum = \<lparr>fresh = 0, update = (\<lambda>chunk h. h + sum_list (map ucast chunk)), intdigest = (\<lambda>h. h)\<rparr>"

definition pycache_tree :: node where
  "pycache_tree = Dir [(''__pycache__'', Dir [(''mod.cpython-311.pyc'', File [1, 2, 3])])]"

definition nested_git_tree :: node where
  "nested_git_tree = Dir [(''ModA'', Dir [(''.git'', Dir [(''config'', File [7])])])]"

subsection \<open>The filter on concrete trees\<close>

text \<open>
  C9 (the code departs from it): with \<open>filter_garbage\<close> true the scanner leaves out the
  entry of a \<open>__pycache__\<close> directory and of a \<open>.git\<close> directory, but the walk still
  enters them. Only under a top-level directory whose relative path starts with
  \<open>.git\<close> are the contents skipped. So the files under \<open>__pycache__\<close>, and the
  files under a \<open>.git\<close> directory that is not at the top, are in the filtered map.
\<close>

theorem scan_filter_keeps_garbage_contents:
  "scan_dir_with_hashes byte_sum pycache_tree True =
     [(''__pycache__/mod.cpython-311.pyc'', \<lparr>is_dir = False, hash = ''0000000000000006''\<rparr>)]
   \<and> scan_dir_with_hashes byte_sum nested_git_tree True =
     [(''ModA'', \<lparr>is_dir = True, hash = []\<rparr>),
      (''ModA/.git/config'', \<lparr>is_dir = False, hash = ''0000000000000007''\<rparr>)]"
  by code_simp

section \<open>Progress events, exceptions and loops\<close>

text \<open>
  A progress event is \<open>(percent, message, phase tag)\<close>, as the progress signal carries
  it. Percentages are Python floats; the model computes them exactly, as rationals.
  A callback is the function from \<open>(percent, message)\<close> to the event it emits; the
  emitted events are collected in a list, oldest first.
\<close>

type_synonym event = "rat \<times> string \<times> string"

type_synonym callback = "(rat \<Rightarrow> string \<Rightarrow> event) option"

definition emit :: "callback \<Rightarrow> rat \<Rightarrow> string \<Rightarrow> event list \<Rightarrow> event list" where
  "emit cb percent msg evs = (case cb of None \<Rightarrow> evs | Some f \<Rightarrow> evs @ [f percent msg])"

text \<open>
  A statement that may raise maps a state to \<open>(Some message, state)\<close> when it raises
  and to \<open>(None, state)\<close> when it completes; the state is the one reached at that
  moment, since what was done before an exception stays done. A \<open>for\<close> loop stops at
  the first iteration that raises.
\<close>

fun for_each :: "('a \<Rightarrow> 's \<Rightarrow> string option \<times> 's) \<Rightarrow> 'a list \<Rightarrow> 's \<Rightarrow> string option \<times> 's" where
  "for_each body [] s = (None, s)"
| "for_each body (x # xs) s =
     (case body x s of
        (Some e, s') \<Rightarrow> (Some e, s')
      | (None, s') \<Rightarrow> for_each body xs s')"

text \<open>Python's \<open>a / b\<close> on two counts: \<open>ZeroDivisionError\<close> when \<open>b\<close> is zero.\<close>

definition py_truediv :: "nat \<Rightarrow> nat \<Rightarrow> string + rat" where
  "py_truediv a b = (if b = 0 then Inl ''division by zero'' else Inr (of_nat a / of_nat b))"

text \<open>\<open>str(n)\<close> of a count, as an f-string prints it.\<close>

definition digit_char :: "nat \<Rightarrow> char" where
  "digit_char d = ''0123456789'' ! d"

function str_nat :: "nat \<Rightarrow> string" where
  "str_nat n = (if n < 10 then [digit_char n] else str_nat (n div 10) @ [digit_char (n mod 10)])"
  by pat_completeness auto
termination
  by (relation "measure id") auto

declare str_nat.simps [simp del]

section \<open>File-system calls on a tree\<close>

text \<open>
  The calls below act on the tree under one root directory, at a path relative to
  it. \<open>None\<close> as the tree means that the root itself does not exist yet.
\<close>

definition path_exists :: "node option \<Rightarrow> path \<Rightarrow> bool" where
  "path_exists fs p = (case fs of None \<Rightarrow> False | Some t \<Rightarrow> lookup t p \<noteq> None)"

text \<open>The chain of fresh directories \<open>n1/n2/.../nk\<close> under a new directory.\<close>

fun mkchain :: "path \<Rightarrow> node" where
  "mkchain [] = Dir []"
| "mkchain (n # ns) = Dir [(n, mkchain ns)]"

text \<open>
  \<open>os.makedirs(p)\<close>: creates \<open>p\<close> and its missing parents; raises when \<open>p\<close> exists or
  when a parent is a file.
\<close>

fun makedirs :: "path \<Rightarrow> node \<Rightarrow> string + node" where
  "makedirs [] t = Inl ''File exists''"
| "makedirs (n # ns) (File d) = Inl ''Not a directory''"
| "makedirs (n # ns) (Dir es) =
     (case map_of es n of
        None \<Rightarrow> Inr (Dir (es @ [(n, mkchain ns)]))
      | Some c \<Rightarrow>
          (case makedirs ns c of
             Inl e \<Rightarrow> Inl e
           | Inr c' \<Rightarrow> Inr (Dir (AList.update n c' es))))"

definition os_makedirs :: "path \<Rightarrow> node option \<Rightarrow> string + node option" where
  "os_makedirs p fs =
     (case fs of
        None \<Rightarrow> Inr (Some (mkchain p))
      | Some t \<Rightarrow> (case makedirs p t of Inl e \<Rightarrow> Inl e | Inr t' \<Rightarrow> Inr (Some t')))"

text \<open>
  Writing a regular file at \<open>p\<close> (\<open>open(p, "wb")\<close>): creates or overwrites it; raises
  when \<open>p\<close> is a directory or its parent is not an existing directory.
\<close>

fun write_file :: "path \<Rightarrow> byte list \<Rightarrow> node \<Rightarrow> string + node" where
  "write_file [] d (File old) = Inr (File d)"
| "write_file [] d (Dir es) = Inl ''Is a directory''"
| "write_file (n # ns) d (File old) = Inl ''Not a directory''"
| "write_file (n # ns) d (Dir es) =
     (case map_of es n of
        None \<Rightarrow> if ns = [] then Inr (Dir (es @ [(n, File d)]))
                else Inl ''No such file or directory''
      | Some c \<Rightarrow>
          (case write_file ns d c of
             Inl e \<Rightarrow> Inl e
           | Inr c' \<Rightarrow> Inr (Dir (AList.update n c' es))))"

definition basename :: "path \<Rightarrow> string" where
  "basename p = (if p = [] then [] else last p)"

text \<open>
  \<open>shutil.copy2(src_file, dst_file)\<close>: reads the source file and writes its content at
  the destination; when the destination is an existing directory, the file is written
  inside it under the source's name. File metadata is not modelled.
\<close>

definition copy2 :: "node \<Rightarrow> path \<Rightarrow> path \<Rightarrow> node \<Rightarrow> string + node" where
  "copy2 src sp dp t =
     (case lookup src sp of
        None \<Rightarrow> Inl ''No such file or directory''
      | Some (Dir es) \<Rightarrow> Inl ''Is a directory''
      | Some (File d) \<Rightarrow>
          (case lookup t dp of
             Some (Dir es) \<Rightarrow> write_file (dp @ [basename sp]) d t
           | _ \<Rightarrow> write_file dp d t))"

section \<open>The backup: \<open>copy_dir_all\<close> and \<open>create_zip_backup\<close>\<close>

text \<open>
  \<open>total_files = 0; for root, dirs, files in os.walk(src): total_files += len(files)\<close>.
\<close>

definition count_files :: "triple list \<Rightarrow> nat" where
  "count_files w = sum_list (map (\<lambda>(base, dirs, files). length files) w)"

text \<open>The state of \<open>copy_dir_all\<close>: the tree at \<open>dst\<close>, the counter, the events.\<close>

record copy_state =
  dst :: "node option"
  copied :: nat
  copy_events :: "event list"

text \<open>One iteration of \<open>for file in files\<close>, in the directory \<open>base\<close> of the walk.\<close>

definition copy_file ::
  "node \<Rightarrow> nat \<Rightarrow> callback \<Rightarrow> path \<Rightarrow> string \<Rightarrow> copy_state \<Rightarrow> string option \<times> copy_state" where
  "copy_file src total_files cb base file st =
     (case dst st of
        None \<Rightarrow> (Some ''No such file or directory'', st)
      | Some t \<Rightarrow>
          (case copy2 src (base @ [file]) (base @ [file]) t of
             Inl e \<Rightarrow> (Some e, st)
           | Inr t' \<Rightarrow>
               (let st1 = st\<lparr>dst := Some t', copied := copied st + 1\<rparr> in
                if cb \<noteq> None \<and> total_files > 0 then
                  (case py_truediv (copied st1) total_files of
                     Inl e \<Rightarrow> (Some e, st1)
                   | Inr q \<Rightarrow>
                       (None, st1\<lparr>copy_events :=
                          emit cb (q * 100)
                            (''Backing up... ('' @ str_nat (copied st1) @ ''/''
                               @ str_nat total_files @ '')'')
                            (copy_events st1)\<rparr>))
                else (None, st1))))"

text \<open>One iteration of the second \<open>for root, dirs, files in os.walk(src)\<close>.\<close>

definition copy_dir ::
  "node \<Rightarrow> nat \<Rightarrow> callback \<Rightarrow> triple \<Rightarrow> copy_state \<Rightarrow> string option \<times> copy_state" where
  "copy_dir src total_files cb = (\<lambda>(base, dirs, files) st.
     if path_exists (dst st) base then for_each (copy_file src total_files cb base) files st
     else
       (case os_makedirs base (dst st) of
          Inl e \<Rightarrow> (Some e, st)
        | Inr fs \<Rightarrow> for_each (copy_file src total_files cb base) files (st\<lparr>dst := fs\<rparr>)))"

text \<open>The body of the \<open>try\<close> of \<open>copy_dir_all\<close>.\<close>

definition copy_dir_all_try ::
  "node \<Rightarrow> node option \<Rightarrow> callback \<Rightarrow> string option \<times> copy_state" where
  "copy_dir_all_try src dst0 cb =
     (let total_files = count_files (walk [] src);
          st0 = \<lparr>dst = dst0, copied = 0, copy_events = []\<rparr>
      in case (if path_exists dst0 [] then Inr dst0 else os_makedirs [] dst0) of
           Inl e \<Rightarrow> (Some e, st0)
         | Inr fs \<Rightarrow>
             (case for_each (copy_dir src total_files cb) (walk [] src) (st0\<lparr>dst := fs\<rparr>) of
                (Some e, st) \<Rightarrow> (Some e, st)
              | (None, st) \<Rightarrow>
                  (None, st\<lparr>copy_events :=
                     emit cb 100
                       (''Backup complete. ('' @ str_nat (copied st) @ ''/'' @ str_nat total_files @ '')'')
                       (copy_events st)\<rparr>)))"

text \<open>
  \<open>copy_dir_all(src, dst, progress_callback)\<close>: \<open>src_name\<close> and \<open>dst_name\<close> are the two
  path strings, which only the error message uses.
\<close>

definition copy_dir_all ::
  "string \<Rightarrow> string \<Rightarrow> node \<Rightarrow> node option \<Rightarrow> callback \<Rightarrow> string option \<times> copy_state" where
  "copy_dir_all src_name dst_name src dst0 cb =
     (case copy_dir_all_try src dst0 cb of
        (Some e, st) \<Rightarrow>
          (Some (''Failed to copy '' @ src_name @ '' to '' @ dst_name @ '': '' @ e), st)
      | (None, st) \<Rightarrow> (None, st))"

text \<open>
  A zip archive is the list of its members in the order written, each the relative
  path it is stored under and the content. \<open>create_zip_backup\<close> writes one member per
  file of the walk; it writes no member for a directory.
\<close>

type_synonym archive = "(path \<times> byte list) list"

record zip_state =
  zipf :: archive
  file_count :: nat
  zip_events :: "event list"

text \<open>
  The directory to compress may be missing: \<open>os.walk\<close> of a missing directory is
  empty.
\<close>

definition walk_dir :: "node option \<Rightarrow> triple list" where
  "walk_dir fs = (case fs of None \<Rightarrow> [] | Some t \<Rightarrow> walk [] t)"

definition zip_file ::
  "node option \<Rightarrow> nat \<Rightarrow> callback \<Rightarrow> path \<Rightarrow> string \<Rightarrow> zip_state \<Rightarrow> string option \<times> zip_state" where
  "zip_file src_dir total_files cb base file st =
     (case (case src_dir of None \<Rightarrow> None | Some t \<Rightarrow> lookup t (base @ [file])) of
        None \<Rightarrow> (Some ''No such file or directory'', st)
      | Some (Dir es) \<Rightarrow> (Some ''Is a directory'', st)
      | Some (File d) \<Rightarrow>
          (let st1 = st\<lparr>zipf := zipf st @ [(base @ [file], d)], file_count := file_count st + 1\<rparr> in
           if cb \<noteq> None \<and> total_files > 0 then
             (case py_truediv (file_count st1) total_files of
                Inl e \<Rightarrow> (Some e, st1)
              | Inr q \<Rightarrow>
                  (None, st1\<lparr>zip_events :=
                     emit cb (q * 100)
                       (''Creating backup zip: '' @ str_nat (file_count st1) @ ''/'' @ str_nat total_files)
                       (zip_events st1)\<rparr>))
           else (None, st1)))"

definition zip_dir ::
  "node option \<Rightarrow> nat \<Rightarrow> callback \<Rightarrow> triple \<Rightarrow> zip_state \<Rightarrow> string option \<times> zip_state" where
  "zip_dir src_dir total_files cb = (\<lambda>(base, dirs, files) st.
     for_each (zip_file src_dir total_files cb base) files st)"

definition create_zip_backup_try ::
  "node option \<Rightarrow> string \<Rightarrow> callback \<Rightarrow> string option \<times> zip_state" where
  "create_zip_backup_try src_dir zip_path cb =
     (let total_files = count_files (walk_dir src_dir);
          st0 = \<lparr>zipf = [], file_count = 0,
                 zip_events = emit cb 0
                   (''Starting zip creation ('' @ str_nat total_files @ '' files)...'') []\<rparr>
      in case for_each (zip_dir src_dir total_files cb) (walk_dir src_dir) st0 of
           (Some e, st) \<Rightarrow> (Some e, st)
         | (None, st) \<Rightarrow>
             (None, st\<lparr>zip_events :=
                emit cb 100 (''Zip backup completed: '' @ zip_path) (zip_events st)\<rparr>))"

text \<open>
  \<open>create_zip_backup(src_dir, zip_path, progress_callback)\<close>: on success the caller
  gets \<open>zip_path\<close> back, and the archive is in the state.
\<close>

definition create_zip_backup ::
  "node option \<Rightarrow> string \<Rightarrow> callback \<Rightarrow> (string + string) \<times> zip_state" where
  "create_zip_backup src_dir zip_path cb =
     (case create_zip_backup_try src_dir zip_path cb of
        (Some e, st) \<Rightarrow> (Inl (''Failed to create zip backup: '' @ e), st)
      | (None, st) \<Rightarrow> (Inr zip_path, st))"

text \<open>
  Extracting an archive (\<open>zip_ref.extract(zinfo, extract_to)\<close> for each member, as in
  \<open>download_and_extract_zip\<close>): the missing parent directories of a member are created,
  then the file is written.
\<close>

definition extract_member :: "path \<times> byte list \<Rightarrow> node \<Rightarrow> string option \<times> node" where
  "extract_member = (\<lambda>(p, d) t.
     (case (if butlast p \<noteq> [] \<and> lookup t (butlast p) = None then makedirs (butlast p) t
            else Inr t) of
        Inl e \<Rightarrow> (Some (''Failed extracting '' @ join_path p @ '': '' @ e), t)
      | Inr t1 \<Rightarrow>
          (case write_file p d t1 of
             Inl e \<Rightarrow> (Some (''Failed extracting '' @ join_path p @ '': '' @ e), t1)
           | Inr t2 \<Rightarrow> (None, t2))))"

definition extract_all :: "archive \<Rightarrow> node \<Rightarrow> string option \<times> node" where
  "extract_all z t = for_each extract_member z t"

subsection \<open>\<open>UpdaterApp._do_backup\<close>\<close>

definition BACKUP_PREFIX :: string where
  "BACKUP_PREFIX = ''Mods_Backup_''"

text \<open>The two closures of \<open>_do_backup\<close>: 0 to 70 percent for the copy, 70 to 100 for the zip.\<close>

definition backup_copy_progress :: "rat \<Rightarrow> string \<Rightarrow> event" where
  "backup_copy_progress percent msg = (percent * (7 / 10), msg, ''backup'')"

definition backup_zip_progress :: "rat \<Rightarrow> string \<Rightarrow> event" where
  "backup_zip_progress percent msg = (70 + percent * (3 / 10), msg, ''backup'')"

record backup_result =
  outcome :: "string + string"
  written_zip :: "archive option"
  backup_events :: "event list"

text \<open>
  \<open>desktop\<close> is \<open>user_desktop()\<close> and \<open>stamp\<close> is \<open>now_str()\<close>. The backup directory is
  named after the time of the call, so it does not exist before the copy. Once the
  archive is written the directory is removed again (\<open>shutil.rmtree\<close>, which raises
  on a missing directory), and the archive stays.
\<close>

definition do_backup :: "string \<Rightarrow> string \<Rightarrow> string \<Rightarrow> node \<Rightarrow> backup_result" where
  "do_backup desktop stamp mods_path mods =
     (let ev0 = [(0, ''Starting backup...'', ''backup'')];
          backup_path = desktop @ ''/'' @ BACKUP_PREFIX @ stamp;
          zip_path = backup_path @ ''.zip''
      in case copy_dir_all mods_path backup_path mods None (Some backup_copy_progress) of
           (Some e, cst) \<Rightarrow>
             \<lparr>outcome = Inl (''Backup failed: '' @ e), written_zip = None,
              backup_events = ev0 @ copy_events cst\<rparr>
         | (None, cst) \<Rightarrow>
             (case create_zip_backup (dst cst) zip_path (Some backup_zip_progress) of
                (Inl e, zst) \<Rightarrow>
                  \<lparr>outcome = Inl (''Backup failed: '' @ e), written_zip = None,
                   backup_events = ev0 @ copy_events cst @ zip_events zst\<rparr>
              | (Inr zp, zst) \<Rightarrow>
                  (if dst cst = None
                   then \<lparr>outcome = Inl ''Backup failed: No such file or directory'',
                         written_zip = Some (zipf zst),
                         backup_events = ev0 @ copy_events cst @ zip_events zst\<rparr>
                   else \<lparr>outcome = Inr zp, written_zip = Some (zipf zst),
                         backup_events = ev0 @ copy_events cst @ zip_events zst
                           @ [(100, ''Backup complete: '' @ zp, ''backup'')]\<rparr>)))"

subsection \<open>Trees without files\<close>

fun nofiles :: "node \<Rightarrow> bool"
  and nofiles_entries :: "(string \<times> node) list \<Rightarrow> bool" where
  "nofiles (File d) = False"
| "nofiles (Dir es) = nofiles_entries es"
| "nofiles_entries [] = True"
| "nofiles_entries ((n, t) # rest) = (nofiles t \<and> nofiles_entries rest)"

lemma nofiles_entries_iff: "nofiles_entries es \<longleftrightarrow> (\<forall>e \<in> set es. nofiles (snd e))"
  by (induction es) auto

lemma nofiles_mkchain: "nofiles (mkchain p)"
  by (induction p) auto

lemma nofiles_map_of: "nofiles_entries es \<Longrightarrow> map_of es n = Some c \<Longrightarrow> nofiles c"
proof -
  assume a: "nofiles_entries es" and b: "map_of es n = Some c"
  from b have "(n, c) \<in> set es" by (rule map_of_SomeD)
  with a show ?thesis by (auto simp: nofiles_entries_iff)
qed

lemma nofiles_update:
  "nofiles_entries es \<Longrightarrow> nofiles c \<Longrightarrow> nofiles_entries (AList.update n c es)"
  by (induction es) auto

lemma nofiles_snoc:
  "nofiles_entries es \<Longrightarrow> nofiles c \<Longrightarrow> nofiles_entries (es @ [(n, c)])"
  by (induction es) auto

lemma makedirs_nofiles:
  "nofiles t \<Longrightarrow> lookup t p = None \<Longrightarrow> \<exists>t'. makedirs p t = Inr t' \<and> nofiles t'"
proof (induction p arbitrary: t)
  case Nil
  then show ?case by simp
next
  case (Cons n ns)
  from Cons.prems(1) obtain es where t: "t = Dir es" and es: "nofiles_entries es"
    by (cases t) auto
  show ?case
  proof (cases "map_of es n")
    case None
    with t es show ?thesis by (simp add: nofiles_snoc nofiles_mkchain)
  next
    case (Some c)
    with es have c: "nofiles c" by (rule nofiles_map_of)
    from Cons.prems(2) t Some have "lookup c ns = None" by simp
    with Cons.IH c obtain c' where "makedirs ns c = Inr c'" "nofiles c'" by blast
    with t es Some show ?thesis by (simp add: nofiles_update)
  qed
qed

lemma filenames_nofiles: "nofiles_entries es \<Longrightarrow> filenames es = []"
proof (induction es)
  case Nil
  show ?case by (simp add: filenames_def)
next
  case (Cons e es)
  obtain n t where e: "e = (n, t)" by (cases e)
  with Cons.prems have "nofiles t" by simp
  then have "is_Dir t" by (cases t) auto
  with Cons e show ?case by (simp add: filenames_def)
qed

lemma walk_nofiles:
  "nofiles t \<Longrightarrow> x \<in> set (walk base t) \<Longrightarrow> snd (snd x) = []"
  "nofiles_entries es \<Longrightarrow> x \<in> set (walk_entries base es) \<Longrightarrow> snd (snd x) = []"
proof (induction base t and base es rule: walk_walk_entries.induct)
  case (1 base d)
  then show ?case by simp
next
  case (2 base es)
  then show ?case by (auto simp: filenames_nofiles)
next
  case (3 base)
  then show ?case by simp
next
  case (4 base n t rest)
  then show ?case by auto
qed

lemma count_files_zero: "count_files w = 0 \<longleftrightarrow> (\<forall>x \<in> set w. snd (snd x) = [])"
  by (induction w) (auto simp: count_files_def)

subsection \<open>The two phases on a tree without files\<close>

lemma str_nat_0: "str_nat 0 = ''0''"
  by (subst str_nat.simps) (simp add: digit_char_def)

text \<open>
  The copy loop over directories that hold no file: every directory is created, nothing
  is copied and no event is emitted.
\<close>

lemma copy_dirs_without_files:
  assumes "\<forall>x \<in> set w. snd (snd x) = []"
    and "dst st = Some t" and "nofiles t"
  shows "\<exists>t'. for_each (copy_dir src total_files cb) w st = (None, st\<lparr>dst := Some t'\<rparr>)
           \<and> nofiles t'"
  using assms
proof (induction w arbitrary: st t)
  case Nil
  then show ?case by (intro exI [of _ t]) simp
next
  case (Cons x w)
  obtain base dirs files where x: "x = (base, dirs, files)" by (cases x)
  with Cons.prems(1) have files: "files = []" by simp
  have "\<exists>t1. copy_dir src total_files cb x st = (None, st\<lparr>dst := Some t1\<rparr>) \<and> nofiles t1"
  proof (cases "lookup t base")
    case None
    with Cons.prems(3) obtain t1 where "makedirs base t = Inr t1" "nofiles t1"
      using makedirs_nofiles by blast
    with None Cons.prems(2) x files show ?thesis
      by (intro exI [of _ t1]) (simp add: copy_dir_def path_exists_def os_makedirs_def)
  next
    case (Some c)
    with Cons.prems(2,3) x files show ?thesis
      by (intro exI [of _ t]) (simp add: copy_dir_def path_exists_def)
  qed
  then obtain t1 where step: "copy_dir src total_files cb x st = (None, st\<lparr>dst := Some t1\<rparr>)"
    and t1: "nofiles t1" by blast
  from Cons.prems(1) have "\<forall>x \<in> set w. snd (snd x) = []" by simp
  from Cons.IH [OF this, of "st\<lparr>dst := Some t1\<rparr>" t1] t1
  obtain t' where "for_each (copy_dir src total_files cb) w (st\<lparr>dst := Some t1\<rparr>)
      = (None, st\<lparr>dst := Some t1, dst := Some t'\<rparr>)" and "nofiles t'"
    by auto
  with step show ?case by (intro exI [of _ t']) simp
qed

lemma zip_dirs_without_files:
  "\<forall>x \<in> set w. snd (snd x) = [] \<Longrightarrow> for_each (zip_dir src_dir total_files cb) w st = (None, st)"
  by (induction w) (auto simp: zip_dir_def)

lemma copy_dir_all_without_files:
  assumes "count_files (walk [] src) = 0"
  shows "\<exists>c. copy_dir_all src_name dst_name src None cb =
           (None, \<lparr>dst = Some c, copied = 0,
                   copy_events = emit cb 100 ''Backup complete. (0/0)'' []\<rparr>)
         \<and> nofiles c"
proof -
  let ?st = "\<lparr>dst = Some (Dir []), copied = 0, copy_events = []\<rparr>"
  from assms have w: "\<forall>x \<in> set (walk [] src). snd (snd x) = []"
    by (simp add: count_files_zero)
  from copy_dirs_without_files [OF w, of ?st "Dir []" src 0 cb]
  obtain c where loop: "for_each (copy_dir src 0 cb) (walk [] src) ?st = (None, ?st\<lparr>dst := Some c\<rparr>)"
    and c: "nofiles c" by auto
  have "copy_dir_all_try src None cb =
          (None, \<lparr>dst = Some c, copied = 0, copy_events = emit cb 100 ''Backup complete. (0/0)'' []\<rparr>)"
    using loop assms
    by (simp add: copy_dir_all_try_def path_exists_def os_makedirs_def str_nat_0)
  with c show ?thesis by (intro exI [of _ c]) (simp add: copy_dir_all_def)
qed

lemma create_zip_backup_without_files:
  assumes "nofiles c"
  shows "create_zip_backup (Some c) zip_path cb =
           (Inr zip_path, \<lparr>zipf = [], file_count = 0,
              zip_events = emit cb 100 (''Zip backup completed: '' @ zip_path)
                (emit cb 0 ''Starting zip creation (0 files)...'' [])\<rparr>)"
proof -
  from assms have w: "\<forall>x \<in> set (walk [] c). snd (snd x) = []"
    using walk_nofiles(1) by blast
  then have n: "count_files (walk [] c) = 0" by (simp add: count_files_zero)
  show ?thesis
    using zip_dirs_without_files [OF w] n
    by (simp add: create_zip_backup_def create_zip_backup_try_def walk_dir_def str_nat_0)
qed

subsection \<open>Claims about the backup\<close>

definition saves_only_tree :: node where
  "saves_only_tree = Dir [(''Saves'', Dir [(''slot1'', Dir [])])]"

text \<open>
  C8, as stated, fails: on a tree without files the backup still reports progress. The
  copy of the empty directory ends with its completion event, which \<open>_do_backup\<close>
  scales to 70 percent.
\<close>

theorem empty_tree_progress_counterexample:
  "count_files (walk [] (Dir [])) = 0
   \<and> copy_events (snd (copy_dir_all ''Mods'' ''Mods_Backup'' (Dir []) None (Some backup_copy_progress)))
       = [(70, ''Backup complete. (0/0)'', ''backup'')]"
  by code_simp

text \<open>
  C8 (amended): for every source tree containing zero files, the copy phase and the
  compression phase complete without raising (no division is evaluated) and emit no
  per-file percent update. The only progress events are the fixed ones: the completion
  event of the copy at 100, and the start event at 0 and the completion event at 100 of
  the compression; nothing is copied and the archive has no member.
\<close>

theorem backup_without_files:
  assumes "count_files (walk [] src) = 0"
  shows "\<exists>c. copy_dir_all src_name dst_name src None cb =
           (None, \<lparr>dst = Some c, copied = 0,
                   copy_events = emit cb 100 ''Backup complete. (0/0)'' []\<rparr>)
         \<and> create_zip_backup (Some c) zip_path cb' =
           (Inr zip_path, \<lparr>zipf = [], file_count = 0,
              zip_events = emit cb' 100 (''Zip backup completed: '' @ zip_path)
                (emit cb' 0 ''Starting zip creation (0 files)...'' [])\<rparr>)"
proof -
  from copy_dir_all_without_files [OF assms, of src_name dst_name cb]
  obtain c where "copy_dir_all src_name dst_name src None cb =
           (None, \<lparr>dst = Some c, copied = 0,
                   copy_events = emit cb 100 ''Backup complete. (0/0)'' []\<rparr>)"
    and "nofiles c" by blast
  then show ?thesis
    using create_zip_backup_without_files [of c zip_path cb'] by blast
qed

theorem backup_without_files_witness:
  "count_files (walk [] saves_only_tree) = 0
   \<and> (\<exists>c. copy_dir_all ''Mods'' ''Mods_Backup'' saves_only_tree None (Some backup_copy_progress) =
           (None, \<lparr>dst = Some c, copied = 0,
                   copy_events = [(70, ''Backup complete. (0/0)'', ''backup'')]\<rparr>)
         \<and> create_zip_backup (Some c) ''Mods_Backup.zip'' (Some backup_zip_progress) =
           (Inr ''Mods_Backup.zip'', \<lparr>zipf = [], file_count = 0,
              zip_events = [(70, ''Starting zip creation (0 files)...'', ''backup''),
                            (100, ''Zip backup completed: Mods_Backup.zip'', ''backup'')]\<rparr>))"
proof -
  have h: "count_files (walk [] saves_only_tree) = 0" by code_simp
  show ?thesis
    using h backup_without_files [OF h, of "''Mods''" "''Mods_Backup''" "Some backup_copy_progress"
        "''Mods_Backup.zip''" "Some backup_zip_progress"]
    by (simp add: emit_def backup_copy_progress_def backup_zip_progress_def)
qed

text \<open>
  The scan of the tree that a full extraction of the backup archive into a fresh
  directory gives, for the round trip of a backup.
\<close>

definition scan_of_extracted_backup :: "'h xxh3_64 \<Rightarrow> node \<Rightarrow> pathmap option" where
  "scan_of_extracted_backup X mods =
     (case written_zip (do_backup ''Desktop'' ''20240101_000000'' ''Mods'' mods) of
        None \<Rightarrow> None
      | Some z \<Rightarrow>
          (case extract_all z (Dir []) of
             (Some e, t) \<Rightarrow> None
           | (None, t) \<Rightarrow> Some (scan_dir_with_hashes X t False)))"

definition empty_dir_tree :: node where
  "empty_dir_tree = Dir [(''readme.txt'', File [104, 105]), (''Saves'', Dir [])]"

text \<open>
  C4 (the code departs from it): \<open>create_zip_backup\<close> writes a member for each file and
  none for a directory, so an empty directory of the source is not in the archive. The
  copy phase does keep it. Extracting the archive of a tree with the file
  \<open>readme.txt\<close> and the empty directory \<open>Saves\<close> gives a tree whose scan has no entry
  for \<open>Saves\<close>.
\<close>

theorem backup_drops_empty_directory:
  "scan_dir_with_hashes byte_sum empty_dir_tree False =
     [(''Saves'', \<lparr>is_dir = True, hash = []\<rparr>),
      (''readme.txt'', \<lparr>is_dir = False, hash = ''00000000000000d1''\<rparr>)]
   \<and> dst (snd (copy_dir_all ''Mods'' ''Mods_Backup'' empty_dir_tree None None)) =
       Some (Dir [(''readme.txt'', File [104, 105]), (''Saves'', Dir [])])
   \<and> written_zip (do_backup ''Desktop'' ''20240101_000000'' ''Mods'' empty_dir_tree) =
       Some [([''readme.txt''], [104, 105])]
   \<and> scan_of_extracted_backup byte_sum empty_dir_tree =
       Some [(''readme.txt'', \<lparr>is_dir = False, hash = ''00000000000000d1''\<rparr>)]"
  by code_simp

section \<open>The apply: \<open>UpdaterApp._do_apply\<close>\<close>

text \<open>
  \<open>Path(mods_path) / meta.rel_path\<close>: the relative path is split at \<open>/\<close>; empty parts
  and \<open>.\<close> parts are dropped, as \<open>pathlib\<close> drops them.
\<close>

fun split_on :: "char \<Rightarrow> string \<Rightarrow> string \<Rightarrow> string list" where
  "split_on c [] part = [part]"
| "split_on c (x # xs) part =
     (if x = c then part # split_on c xs [] else split_on c xs (part @ [x]))"

definition split_path :: "string \<Rightarrow> path" where
  "split_path s = filter (\<lambda>n. n \<noteq> [] \<and> n \<noteq> ''.'') (split_on CHR ''/'' s [])"

subsection \<open>What the apply takes from the platform\<close>

text \<open>
  The live tree is the tree under \<open>mods_path\<close>. Its calls can fail for reasons the tree
  does not show, and the text of a path is the platform's:

  \<^item> \<open>stat_error\<close>: the paths of the live tree on which \<open>stat\<close> raises \<open>PermissionError\<close>
    (a directory on the way to the path may not be searched). \<open>Path.exists\<close> returns
    \<open>False\<close> for a missing path only and raises this error again, while
    \<open>os.path.exists\<close> answers \<open>False\<close> on every error.
  \<^item> \<open>change_error\<close>: the paths of the live tree on which every changing call
    (\<open>chmod\<close>, \<open>remove\<close>, \<open>rmdir\<close>, \<open>makedirs\<close>, \<open>copy2\<close>) raises \<open>PermissionError\<close>
    (a file in use, an access right).
  \<^item> \<open>path_str base rel\<close>: the string \<open>str(Path(base) / rel)\<close>, which \<open>pathlib\<close> prints
    with the separator and the rules of the platform.

  The message of an \<open>OSError\<close> is its error text; Python adds the error number and the
  path. The root of the live tree is never removed or overwritten. The staging tree under
  \<open>repo_dir\<close> is read without such errors.
\<close>

record os_env =
  stat_error :: "path \<Rightarrow> bool"
  change_error :: "path \<Rightarrow> bool"
  path_str :: "string \<Rightarrow> string \<Rightarrow> string"

text \<open>\<open>Path.exists\<close> and \<open>os.path.exists\<close> on a path of the live tree.\<close>

definition pathlib_exists :: "os_env \<Rightarrow> node \<Rightarrow> path \<Rightarrow> string + bool" where
  "pathlib_exists env t p =
     (if stat_error env p then Inl ''Permission denied'' else Inr (lookup t p \<noteq> None))"

definition os_path_exists :: "os_env \<Rightarrow> node \<Rightarrow> path \<Rightarrow> bool" where
  "os_path_exists env t p = (\<not> stat_error env p \<and> lookup t p \<noteq> None)"

text \<open>
  \<open>str(PurePosixPath(base) / rel)\<close>, the value of \<open>path_str\<close> on POSIX: a second part
  with a root replaces the first; empty parts and \<open>.\<close> parts are dropped; the root is
  \<open>/\<close>, or \<open>//\<close> for exactly two leading slashes; the path without root and parts
  prints as \<open>.\<close>.
\<close>

definition posix_root :: "string \<Rightarrow> string" where
  "posix_root s =
     (if startswith s ''//'' \<and> \<not> startswith s ''///'' then ''//''
      else if startswith s ''/'' then ''/'' else [])"

definition posix_path_str :: "string \<Rightarrow> string \<Rightarrow> string" where
  "posix_path_str base rel =
     (let anchor = (if posix_root rel \<noteq> [] then posix_root rel else posix_root base);
          parts = (if posix_root rel \<noteq> [] then split_path rel
                   else split_path base @ split_path rel)
      in if anchor = [] \<and> parts = [] then ''.'' else anchor @ join_path parts)"

subsection \<open>Calls that change the live tree\<close>

text \<open>
  Each call takes the set \<open>denied\<close> of the paths on which it raises \<open>PermissionError\<close>
  (the \<open>change_error\<close> of the environment).
\<close>

type_synonym stmt = "node \<Rightarrow> string option \<times> node"

definition then_do :: "('s \<Rightarrow> string option \<times> 's) \<Rightarrow> ('s \<Rightarrow> string option \<times> 's) \<Rightarrow> 's \<Rightarrow> string option \<times> 's" where
  "then_do a b s = (case a s of (Some e, s') \<Rightarrow> (Some e, s') | (None, s') \<Rightarrow> b s')"

text \<open>The tree without the entry at \<open>p\<close>.\<close>

fun remove_at :: "path \<Rightarrow> node \<Rightarrow> node" where
  "remove_at [] t = t"
| "remove_at (n # ns) (File d) = File d"
| "remove_at (n # ns) (Dir es) =
     (if ns = [] then Dir (AList.delete n es)
      else (case map_of es n of
              None \<Rightarrow> Dir es
            | Some c \<Rightarrow> Dir (AList.update n (remove_at ns c) es)))"

definition os_chmod :: "(path \<Rightarrow> bool) \<Rightarrow> path \<Rightarrow> stmt" where
  "os_chmod denied p t =
     (if denied p then (Some ''Permission denied'', t)
      else if lookup t p = None then (Some ''No such file or directory'', t)
      else (None, t))"

definition os_remove :: "(path \<Rightarrow> bool) \<Rightarrow> path \<Rightarrow> stmt" where
  "os_remove denied p t =
     (if denied p \<or> p = [] then (Some ''Permission denied'', t)
      else (case lookup t p of
              None \<Rightarrow> (Some ''No such file or directory'', t)
            | Some (Dir es) \<Rightarrow> (Some ''Is a directory'', t)
            | Some (File d) \<Rightarrow> (None, remove_at p t)))"

definition os_rmdir :: "(path \<Rightarrow> bool) \<Rightarrow> path \<Rightarrow> stmt" where
  "os_rmdir denied p t =
     (if denied p \<or> p = [] then (Some ''Permission denied'', t)
      else (case lookup t p of
              None \<Rightarrow> (Some ''No such file or directory'', t)
            | Some (File d) \<Rightarrow> (Some ''Not a directory'', t)
            | Some (Dir es) \<Rightarrow>
                if es = [] then (None, remove_at p t) else (Some ''Directory not empty'', t)))"

definition live_makedirs :: "(path \<Rightarrow> bool) \<Rightarrow> path \<Rightarrow> stmt" where
  "live_makedirs denied p t =
     (if denied p then (Some ''Permission denied'', t)
      else (case makedirs p t of Inl e \<Rightarrow> (Some e, t) | Inr t' \<Rightarrow> (None, t')))"

definition live_copy2 :: "(path \<Rightarrow> bool) \<Rightarrow> node \<Rightarrow> path \<Rightarrow> path \<Rightarrow> stmt" where
  "live_copy2 denied repo sp dp t =
     (if denied dp \<or> dp = [] then (Some ''Permission denied'', t)
      else (case copy2 repo sp dp t of Inl e \<Rightarrow> (Some e, t) | Inr t' \<Rightarrow> (None, t')))"

subsection \<open>Phase 1: deletions\<close>

text \<open>
  The body of the \<open>try\<close> for one deletion. For a directory: every file and then every
  subdirectory of each directory of the bottom-up walk, then the directory itself. The
  body runs after \<open>target.exists()\<close> has returned \<open>True\<close>, so \<open>stat\<close> works on the target
  and \<open>os.path.isdir\<close> and \<open>os.path.isfile\<close> tell what the tree holds there.
\<close>

definition remove_walked :: "(path \<Rightarrow> bool) \<Rightarrow> path \<Rightarrow> triple \<Rightarrow> stmt" where
  "remove_walked denied target = (\<lambda>(base, dirs, files).
     then_do
       (for_each (\<lambda>name. then_do (os_chmod denied (target @ base @ [name]))
                                  (os_remove denied (target @ base @ [name]))) files)
       (for_each (\<lambda>name. os_rmdir denied (target @ base @ [name])) dirs))"

definition delete_try :: "(path \<Rightarrow> bool) \<Rightarrow> FileMeta \<Rightarrow> stmt" where
  "delete_try denied meta t =
     (let target = split_path (rel_path meta) in
      if fm_is_dir meta then
        (case lookup t target of
           Some (Dir es) \<Rightarrow>
             then_do (for_each (remove_walked denied target) (walk_up [] (Dir es)))
                     (os_rmdir denied target) t
         | _ \<Rightarrow> (None, t))
      else
        (case lookup t target of
           Some (File d) \<Rightarrow> then_do (os_chmod denied target) (os_remove denied target) t
         | _ \<Rightarrow> (None, t)))"

text \<open>
  The state of \<open>_do_apply\<close>: the live tree, the counter \<open>done\<close>, the events, and the
  archive of the backup phase when it ran.
\<close>

record apply_state =
  live :: node
  done_count :: nat
  apply_events :: "event list"
  backup_zip :: "archive option"

text \<open>
  The progress report after each entry:
  \<open>if total > 0: percent = 20 + (done / total) * 70\<close>.
\<close>

definition report :: "nat \<Rightarrow> string \<Rightarrow> apply_state \<Rightarrow> string option \<times> apply_state" where
  "report total_count msg st =
     (if total_count > 0 then
        (case py_truediv (done_count st) total_count of
           Inl e \<Rightarrow> (Some e, st)
         | Inr q \<Rightarrow> (None, st\<lparr>apply_events := apply_events st @ [(20 + q * 70, msg, ''apply'')]\<rparr>))
      else (None, st))"

text \<open>
  One iteration of \<open>for meta in deletes\<close>. The test \<open>if target.exists():\<close> stands before
  the \<open>try\<close>: an error of it leaves the loop. Inside the \<open>try\<close>,
  \<open>except Exception: pass\<close> drops the exception and keeps the tree as the failed attempt
  left it.
\<close>

definition delete_entry ::
  "os_env \<Rightarrow> nat \<Rightarrow> FileMeta \<Rightarrow> apply_state \<Rightarrow> string option \<times> apply_state" where
  "delete_entry env total_count meta st =
     (let target = split_path (rel_path meta) in
      case pathlib_exists env (live st) target of
        Inl ex \<Rightarrow> (Some ex, st)
      | Inr found \<Rightarrow>
          (let t1 = (if found then snd (delete_try (change_error env) meta (live st))
                     else live st)
           in report total_count (''Deleting: '' @ rel_path meta)
                (st\<lparr>live := t1, done_count := done_count st + 1\<rparr>)))"

subsection \<open>Phase 2: additions and replacements\<close>

text \<open>
  The body of the \<open>try\<close> for one addition or replacement; the three tests
  \<open>dst.exists()\<close>, \<open>src.exists()\<close> and \<open>dst.parent.exists()\<close> are inside it.
\<close>

definition copy_try :: "os_env \<Rightarrow> node \<Rightarrow> FileMeta \<Rightarrow> stmt" where
  "copy_try env repo meta t =
     (let src = split_path (rel_path meta);
          dst_path = split_path (rel_path meta)
      in if fm_is_dir meta then
           (case pathlib_exists env t dst_path of
              Inl ex \<Rightarrow> (Some ex, t)
            | Inr found \<Rightarrow>
                if \<not> found then live_makedirs (change_error env) dst_path t else (None, t))
         else if lookup repo src \<noteq> None then
           then_do
             (\<lambda>t. case pathlib_exists env t (butlast dst_path) of
                     Inl ex \<Rightarrow> (Some ex, t)
                   | Inr found \<Rightarrow>
                       if \<not> found then live_makedirs (change_error env) (butlast dst_path) t
                       else (None, t))
             (then_do
                (\<lambda>t. if os_path_exists env t dst_path
                      then os_chmod (change_error env) dst_path t else (None, t))
                (live_copy2 (change_error env) repo src dst_path)) t
         else (None, t))"

text \<open>
  One iteration of \<open>for meta in adds + replaces\<close>: an exception of the body is raised
  again with the two paths in its message.
\<close>

definition copy_entry ::
  "os_env \<Rightarrow> node \<Rightarrow> string \<Rightarrow> string \<Rightarrow> nat \<Rightarrow> FileMeta \<Rightarrow> apply_state
     \<Rightarrow> string option \<times> apply_state" where
  "copy_entry env repo repo_dir mods_path total_count meta st =
     (case copy_try env repo meta (live st) of
        (Some ex, t1) \<Rightarrow>
          (Some (''Copy failed for '' @ path_str env repo_dir (rel_path meta) @ '' to ''
                   @ path_str env mods_path (rel_path meta) @ '': '' @ ex),
           st\<lparr>live := t1\<rparr>)
      | (None, t1) \<Rightarrow>
          report total_count (''Copying: '' @ rel_path meta)
            (st\<lparr>live := t1, done_count := done_count st + 1\<rparr>))"

subsection \<open>Phase 0 and the whole function\<close>

text \<open>The two closures of \<open>_do_apply\<close> for the backup phase.\<close>

definition apply_copy_progress :: "rat \<Rightarrow> string \<Rightarrow> event" where
  "apply_copy_progress percent msg = (percent * (6 / 10), msg, ''apply'')"

definition apply_zip_progress :: "rat \<Rightarrow> string \<Rightarrow> event" where
  "apply_zip_progress percent msg = (60 + percent * (2 / 10), msg, ''apply'')"

text \<open>
  The backup before the apply; it yields \<open>backup_path\<close>. The backup directory is named
  after the time of the call, so it does not exist before the copy.
\<close>

definition backup_phase ::
  "string \<Rightarrow> string \<Rightarrow> string \<Rightarrow> apply_state \<Rightarrow> (string + string) \<times> apply_state" where
  "backup_phase desktop stamp mods_path st =
     (let st0 = st\<lparr>apply_events := apply_events st
                   @ [(0, ''Starting backup before apply...'', ''apply'')]\<rparr>;
          backup_dir = desktop @ ''/'' @ BACKUP_PREFIX @ stamp;
          zip_path = backup_dir @ ''.zip''
      in case copy_dir_all mods_path backup_dir (live st) None (Some apply_copy_progress) of
           (Some e, cst) \<Rightarrow>
             (Inl e, st0\<lparr>apply_events := apply_events st0 @ copy_events cst\<rparr>)
         | (None, cst) \<Rightarrow>
             (case create_zip_backup (dst cst) zip_path (Some apply_zip_progress) of
                (Inl e, zst) \<Rightarrow>
                  (Inl e, st0\<lparr>apply_events := apply_events st0 @ copy_events cst @ zip_events zst\<rparr>)
              | (Inr zp, zst) \<Rightarrow>
                  (if dst cst = None
                   then (Inl ''No such file or directory'',
                         st0\<lparr>apply_events := apply_events st0 @ copy_events cst @ zip_events zst,
                             backup_zip := Some (zipf zst)\<rparr>)
                   else (Inr zp,
                         st0\<lparr>apply_events := apply_events st0 @ copy_events cst @ zip_events zst
                               @ [(20, ''Backup complete.'', ''apply'')],
                             backup_zip := Some (zipf zst)\<rparr>))))"

text \<open>The two loops and the final event, after the backup phase.\<close>

definition apply_phases ::
  "os_env \<Rightarrow> node \<Rightarrow> string \<Rightarrow> string
     \<Rightarrow> FileMeta list \<Rightarrow> FileMeta list \<Rightarrow> FileMeta list
     \<Rightarrow> apply_state \<Rightarrow> string option \<times> apply_state" where
  "apply_phases env repo repo_dir mods_path adds_l deletes_l replaces_l st =
     (let total_count = length deletes_l + length adds_l + length replaces_l in
      case for_each (delete_entry env total_count) deletes_l (st\<lparr>done_count := 0\<rparr>) of
        (Some e, st1) \<Rightarrow> (Some e, st1)
      | (None, st1) \<Rightarrow>
          (case for_each (copy_entry env repo repo_dir mods_path total_count)
                  (adds_l @ replaces_l) st1 of
             (Some e, st2) \<Rightarrow> (Some e, st2)
           | (None, st2) \<Rightarrow>
               (None, st2\<lparr>apply_events := apply_events st2 @ [(100, ''Done.'', ''apply'')]\<rparr>)))"

text \<open>
  \<open>_do_apply(mods_path, adds, deletes, replaces, repo_dir, backup_before_apply)\<close>.
  \<open>mods\<close> is the live tree under \<open>mods_path\<close> and \<open>repo\<close> the staging tree under
  \<open>repo_dir\<close>; \<open>desktop\<close> is \<open>user_desktop()\<close> and \<open>stamp\<close> is \<open>now_str()\<close>. The result is
  \<open>Inr\<close> of the returned string (the archive path, or the empty string without a
  backup) or \<open>Inl\<close> of the message of the raised exception.
\<close>

definition do_apply ::
  "string \<Rightarrow> string \<Rightarrow> os_env \<Rightarrow> node \<Rightarrow> node \<Rightarrow> string
     \<Rightarrow> FileMeta list \<Rightarrow> FileMeta list \<Rightarrow> FileMeta list \<Rightarrow> string \<Rightarrow> bool
     \<Rightarrow> (string + string) \<times> apply_state" where
  "do_apply desktop stamp env mods repo mods_path adds_l deletes_l replaces_l repo_dir
      backup_before_apply =
     (let st = \<lparr>live = mods, done_count = 0, apply_events = [], backup_zip = None\<rparr> in
      case (if backup_before_apply then backup_phase desktop stamp mods_path st
            else (Inr [], st)) of
        (Inl e, st0) \<Rightarrow> (Inl (''Failed applying changes: '' @ e), st0)
      | (Inr backup_path, st0) \<Rightarrow>
          (case apply_phases env repo repo_dir mods_path adds_l deletes_l replaces_l st0 of
             (Some e, st1) \<Rightarrow> (Inl (''Failed applying changes: '' @ e), st1)
           | (None, st1) \<Rightarrow> (Inr backup_path, st1)))"

subsection \<open>Trees and environments to run the apply on\<close>

text \<open>The scenario of the specification, on POSIX, and an environment without errors.\<close>

definition sc_live :: node where
  "sc_live = Dir [(''a.txt'', File [1]), (''b.txt'', File [2])]"

definition sc_repo :: node where
  "sc_repo = Dir [(''a.txt'', File [1]), (''c.txt'', File [3])]"

definition nothing_denied :: os_env where
  "nothing_denied =
     \<lparr>stat_error = (\<lambda>p. False), change_error = (\<lambda>p. False), path_str = posix_path_str\<rparr>"

text \<open>The files \<open>b.txt\<close> and \<open>c.txt\<close> of the live tree cannot be changed.\<close>

definition b_c_denied :: os_env where
  "b_c_denied =
     \<lparr>stat_error = (\<lambda>p. False),
      change_error = (\<lambda>p. p = [''b.txt''] \<or> p = [''c.txt'']),
      path_str = posix_path_str\<rparr>"

text \<open>
  A live tree with the file \<open>locked/b.txt\<close>, in two environments: one where the file
  is in use, so that it can be seen but not changed, and one where the directory
  \<open>locked\<close> may not be searched, so that \<open>stat\<close> fails on the file as well.
\<close>

definition locked_live :: node where
  "locked_live =
     Dir [(''a.txt'', File [1]), (''old.txt'', File [4]), (''locked'', Dir [(''b.txt'', File [2])])]"

definition b_in_use :: os_env where
  "b_in_use =
     \<lparr>stat_error = (\<lambda>p. False),
      change_error = (\<lambda>p. p = [''locked'', ''b.txt'']),
      path_str = posix_path_str\<rparr>"

definition locked_not_searchable :: os_env where
  "locked_not_searchable =
     \<lparr>stat_error = (\<lambda>p. p = [''locked'', ''b.txt'']),
      change_error = (\<lambda>p. p = [''locked'', ''b.txt'']),
      path_str = posix_path_str\<rparr>"

subsection \<open>Lemmas about the loops\<close>

lemma for_each_never_raises:
  "(\<And>x s. x \<in> set xs \<Longrightarrow> fst (body x s) = None) \<Longrightarrow> fst (for_each body xs s) = None"
proof (induction xs arbitrary: s)
  case Nil
  show ?case by simp
next
  case (Cons x xs)
  obtain r s' where b: "body x s = (r, s')" by (cases "body x s")
  with Cons.prems [of x s] have "r = None" by simp
  with b Cons show ?case by simp
qed

lemma for_each_append:
  "for_each body xs s = (None, s') \<Longrightarrow> for_each body (xs @ ys) s = for_each body ys s'"
proof (induction xs arbitrary: s)
  case Nil
  then show ?case by simp
next
  case (Cons x xs)
  obtain r s1 where b: "body x s = (r, s1)" by (cases "body x s")
  show ?case
  proof (cases r)
    case None
    with b Cons show ?thesis by simp
  next
    case (Some e)
    with b Cons.prems show ?thesis by simp
  qed
qed

lemma for_each_raises:
  "for_each body xs s = (Some e, s') \<Longrightarrow> \<exists>x \<in> set xs. \<exists>s1 s2. body x s1 = (Some e, s2)"
proof (induction xs arbitrary: s)
  case Nil
  then show ?case by simp
next
  case (Cons x xs)
  obtain r s1 where b: "body x s = (r, s1)" by (cases "body x s")
  show ?case
  proof (cases r)
    case None
    with b Cons.prems have "for_each body xs s1 = (Some e, s')" by simp
    with Cons.IH show ?thesis by auto
  next
    case (Some e')
    with b Cons.prems have "e' = e" by simp
    with b Some show ?thesis by auto
  qed
qed

lemma report_never_raises: "fst (report n msg st) = None"
  by (simp add: report_def py_truediv_def)

lemma report_live: "live (snd (report n msg st)) = live st"
  by (simp add: report_def py_truediv_def)

lemma report_done: "done_count (snd (report n msg st)) = done_count st"
  by (simp add: report_def py_truediv_def)

text \<open>A deletion raises only through the existence test of its target.\<close>

lemma delete_entry_stat_error:
  "stat_error env (split_path (rel_path meta)) \<Longrightarrow>
     delete_entry env n meta st = (Some ''Permission denied'', st)"
  by (simp add: delete_entry_def pathlib_exists_def)

lemma delete_entry_never_raises:
  "\<not> stat_error env (split_path (rel_path meta)) \<Longrightarrow> fst (delete_entry env n meta st) = None"
  by (simp add: delete_entry_def Let_def pathlib_exists_def report_never_raises)

lemma delete_entry_raises:
  assumes "delete_entry env n meta st = (Some e, st')"
  shows "stat_error env (split_path (rel_path meta)) \<and> e = ''Permission denied''"
proof (cases "stat_error env (split_path (rel_path meta))")
  case True
  with assms show ?thesis by (simp add: delete_entry_stat_error)
next
  case False
  from delete_entry_never_raises [OF this, of n st] assms show ?thesis by simp
qed

lemma delete_entry_done:
  "\<not> stat_error env (split_path (rel_path meta)) \<Longrightarrow>
     done_count (snd (delete_entry env n meta st)) = done_count st + 1"
  by (simp add: delete_entry_def Let_def pathlib_exists_def report_done)

lemma delete_entry_done_le:
  "done_count (snd (delete_entry env n meta st)) \<le> done_count st + 1"
  by (cases "stat_error env (split_path (rel_path meta))")
    (simp_all add: delete_entry_stat_error delete_entry_done)

lemma delete_loop_completes:
  assumes "\<forall>d \<in> set ds. \<not> stat_error env (split_path (rel_path d))"
  shows "fst (for_each (delete_entry env n) ds s) = None"
    and "done_count (snd (for_each (delete_entry env n) ds s)) = done_count s + length ds"
proof -
  show "fst (for_each (delete_entry env n) ds s) = None"
    using assms by (intro for_each_never_raises delete_entry_never_raises) simp
  show "done_count (snd (for_each (delete_entry env n) ds s)) = done_count s + length ds"
    using assms
  proof (induction ds arbitrary: s)
    case Nil
    show ?case by simp
  next
    case (Cons d ds)
    from Cons.prems have ok: "\<not> stat_error env (split_path (rel_path d))" by simp
    obtain r s1 where b: "delete_entry env n d s = (r, s1)" by (cases "delete_entry env n d s")
    with delete_entry_never_raises [OF ok, of n s] have r: "r = None" by simp
    from b have "done_count s1 = done_count s + 1"
      using delete_entry_done [OF ok, of n s] by simp
    with b r Cons.IH [of s1] Cons.prems show ?case by simp
  qed
qed

lemma copy_entry_raises:
  assumes "copy_entry env repo repo_dir mods_path n m st = (Some e, st')"
  shows "\<exists>ex. e = ''Copy failed for '' @ path_str env repo_dir (rel_path m) @ '' to ''
                   @ path_str env mods_path (rel_path m) @ '': '' @ ex"
proof -
  obtain r t1 where c: "copy_try env repo m (live st) = (r, t1)"
    by (cases "copy_try env repo m (live st)")
  show ?thesis
  proof (cases r)
    case None
    with c assms have "fst (report n (''Copying: '' @ rel_path m)
        (st\<lparr>live := t1, done_count := done_count st + 1\<rparr>)) = Some e"
      by (simp add: copy_entry_def)
    then show ?thesis by (simp add: report_never_raises)
  next
    case (Some ex)
    with c assms show ?thesis by (auto simp: copy_entry_def)
  qed
qed

lemma copy_entry_fails:
  assumes "copy_try env repo m (live st) = (Some ex, t1)"
  shows "copy_entry env repo repo_dir mods_path n m st =
     (Some (''Copy failed for '' @ path_str env repo_dir (rel_path m) @ '' to ''
              @ path_str env mods_path (rel_path m) @ '': '' @ ex), st\<lparr>live := t1\<rparr>)"
  using assms by (simp add: copy_entry_def)

lemma do_apply_no_backup:
  "do_apply desktop stamp env mods repo mods_path adds_l deletes_l replaces_l repo_dir False =
     (case apply_phases env repo repo_dir mods_path adds_l deletes_l replaces_l
             \<lparr>live = mods, done_count = 0, apply_events = [], backup_zip = None\<rparr> of
        (Some e, st1) \<Rightarrow> (Inl (''Failed applying changes: '' @ e), st1)
      | (None, st1) \<Rightarrow> (Inr [], st1))"
  by (simp add: do_apply_def)

text \<open>The sources of an exception of the two loops.\<close>

lemma apply_phases_raises:
  assumes "fst (apply_phases env repo repo_dir mods_path adds_l deletes_l replaces_l st) = Some e"
  shows "(\<exists>d \<in> set deletes_l. stat_error env (split_path (rel_path d))
             \<and> e = ''Permission denied'')
       \<or> (\<exists>m \<in> set (adds_l @ replaces_l). \<exists>ex.
             e = ''Copy failed for '' @ path_str env repo_dir (rel_path m) @ '' to ''
                   @ path_str env mods_path (rel_path m) @ '': '' @ ex)"
proof -
  let ?n = "length deletes_l + length adds_l + length replaces_l"
  obtain r1 s1 where l1: "for_each (delete_entry env ?n) deletes_l (st\<lparr>done_count := 0\<rparr>) = (r1, s1)"
    by (cases "for_each (delete_entry env ?n) deletes_l (st\<lparr>done_count := 0\<rparr>)")
  show ?thesis
  proof (cases r1)
    case (Some e1)
    with l1 assms have e: "e1 = e" by (simp add: apply_phases_def)
    from l1 Some e for_each_raises [of "delete_entry env ?n" deletes_l "st\<lparr>done_count := 0\<rparr>" e s1]
    obtain d a b where d: "d \<in> set deletes_l" and "delete_entry env ?n d a = (Some e, b)"
      by blast
    from delete_entry_raises [OF this(2)] d show ?thesis by blast
  next
    case None
    obtain r2 s2 where l2: "for_each (copy_entry env repo repo_dir mods_path ?n)
        (adds_l @ replaces_l) s1 = (r2, s2)"
      by (cases "for_each (copy_entry env repo repo_dir mods_path ?n) (adds_l @ replaces_l) s1")
    show ?thesis
    proof (cases r2)
      case None
      with \<open>r1 = None\<close> l1 l2 assms show ?thesis by (simp add: apply_phases_def)
    next
      case (Some e2)
      with \<open>r1 = None\<close> l1 l2 assms have e: "e2 = e" by (simp add: apply_phases_def)
      from l2 Some e
        for_each_raises [of "copy_entry env repo repo_dir mods_path ?n" "adds_l @ replaces_l" s1 e s2]
      obtain m a b where m: "m \<in> set (adds_l @ replaces_l)"
        and "copy_entry env repo repo_dir mods_path ?n m a = (Some e, b)"
        by blast
      from copy_entry_raises [OF this(2)] m show ?thesis by blast
    qed
  qed
qed

subsection \<open>Claims about the apply\<close>

text \<open>
  C3 (the code departs from it): with the backup flag set, the events tagged \<open>apply\<close>
  do not stay non-decreasing. The backup phase scales the copy to 0..60 and the zip to
  60..80, and then reports 20 for the completed backup; the deletions go on from 20. On
  the scenario of the specification the percentages are
  0, 30, 60, 60, 60, 70, 80, 80, 20, 55, 90, 100.
\<close>

theorem apply_backup_progress_goes_back:
  "map fst (apply_events (snd (do_apply ''Desktop'' ''20240101_000000'' nothing_denied
       sc_live sc_repo ''Mods'' [FileMeta ''c.txt'' False] [FileMeta ''b.txt'' False] []
       ''Repo'' True)))
     = [0, 30, 60, 60, 60, 70, 80, 80, 20, 55, 90, 100]
   \<and> map (\<lambda>e. snd (snd e)) (apply_events (snd (do_apply ''Desktop'' ''20240101_000000''
       nothing_denied sc_live sc_repo ''Mods'' [FileMeta ''c.txt'' False]
       [FileMeta ''b.txt'' False] [] ''Repo'' True)))
     = replicate 12 ''apply''
   \<and> \<not> sorted (map fst (apply_events (snd (do_apply ''Desktop'' ''20240101_000000''
       nothing_denied sc_live sc_repo ''Mods'' [FileMeta ''c.txt'' False]
       [FileMeta ''b.txt'' False] [] ''Repo'' True))))"
  by code_simp

text \<open>
  C6 (the code departs from it): a failure of a deletion entry can surface and abort the
  apply. The \<open>try\<close> of a deletion, with its \<open>except Exception: pass\<close>, begins after the
  test \<open>if target.exists():\<close>, and \<open>Path.exists\<close> raises the \<open>PermissionError\<close> of \<open>stat\<close>
  again. Take the live tree with \<open>a.txt\<close>, \<open>old.txt\<close> and \<open>locked/b.txt\<close>, the deletions
  \<open>locked/b.txt\<close> and \<open>old.txt\<close> and the addition \<open>c.txt\<close>, without the backup.

  Where \<open>locked/b.txt\<close> is in use, its removal raises inside the \<open>try\<close>: the error is
  dropped, \<open>old.txt\<close> is deleted, \<open>c.txt\<close> is copied and the apply returns. Where the
  directory \<open>locked\<close> may not be searched, the existence test raises: the apply ends
  with \<open>Failed applying changes: Permission denied\<close>, a message that names neither a
  source nor a destination, at the first entry; \<open>old.txt\<close> is still there, \<open>c.txt\<close> is
  not copied, and no entry is counted or reported.
\<close>

theorem deletion_existence_test_aborts:
  "fst (delete_try (change_error b_in_use) (FileMeta ''locked/b.txt'' False) locked_live)
     = Some ''Permission denied''
   \<and> do_apply ''Desktop'' ''20240101_000000'' b_in_use locked_live sc_repo ''Mods''
       [FileMeta ''c.txt'' False] [FileMeta ''locked/b.txt'' False, FileMeta ''old.txt'' False] []
       ''Repo'' False
     = (Inr [],
        \<lparr>live = Dir [(''a.txt'', File [1]), (''locked'', Dir [(''b.txt'', File [2])]),
                     (''c.txt'', File [3])],
         done_count = 3,
         apply_events = [(130 / 3, ''Deleting: locked/b.txt'', ''apply''),
                         (200 / 3, ''Deleting: old.txt'', ''apply''),
                         (90, ''Copying: c.txt'', ''apply''),
                         (100, ''Done.'', ''apply'')],
         backup_zip = None\<rparr>)
   \<and> do_apply ''Desktop'' ''20240101_000000'' locked_not_searchable locked_live sc_repo ''Mods''
       [FileMeta ''c.txt'' False] [FileMeta ''locked/b.txt'' False, FileMeta ''old.txt'' False] []
       ''Repo'' False
     = (Inl ''Failed applying changes: Permission denied'',
        \<lparr>live = locked_live, done_count = 0, apply_events = [], backup_zip = None\<rparr>)"
  by code_simp

text \<open>
  C10: an addition or replacement entry that is a file (\<open>is_dir\<close> false) and whose source
  path does not exist in the staging tree is skipped silently. The body of its \<open>try\<close>
  does not raise and leaves the live tree as it is, the entry counts as done, the loop
  goes on with the next entry, and an apply of just this entry returns normally with
  the live tree unchanged.
\<close>

theorem missing_source_skipped:
  assumes "\<not> fm_is_dir m" and "lookup repo (split_path (rel_path m)) = None"
  shows "copy_try env repo m t = (None, t)
     \<and> fst (copy_entry env repo repo_dir mods_path n m st) = None
     \<and> live (snd (copy_entry env repo repo_dir mods_path n m st)) = live st
     \<and> done_count (snd (copy_entry env repo repo_dir mods_path n m st)) = done_count st + 1
     \<and> for_each (copy_entry env repo repo_dir mods_path n) (m # post) st
         = for_each (copy_entry env repo repo_dir mods_path n) post
             (snd (copy_entry env repo repo_dir mods_path n m st))
     \<and> do_apply desktop stamp env mods repo mods_path [m] [] [] repo_dir False
         = (Inr [], \<lparr>live = mods, done_count = 1,
              apply_events = [(90, ''Copying: '' @ rel_path m, ''apply''),
                              (100, ''Done.'', ''apply'')],
              backup_zip = None\<rparr>)"
proof -
  have body: "copy_try env repo m t = (None, t)" for t
    using assms by (simp add: copy_try_def)
  have entry: "copy_entry env repo repo_dir mods_path k m s
      = report k (''Copying: '' @ rel_path m) (s\<lparr>done_count := done_count s + 1\<rparr>)" for k s
    by (simp add: copy_entry_def body)
  have c2: "fst (copy_entry env repo repo_dir mods_path n m st) = None"
    by (simp add: entry report_never_raises)
  have c3: "live (snd (copy_entry env repo repo_dir mods_path n m st)) = live st"
    by (simp add: entry report_live)
  have c4: "done_count (snd (copy_entry env repo repo_dir mods_path n m st)) = done_count st + 1"
    by (simp add: entry report_done)
  have c5: "for_each (copy_entry env repo repo_dir mods_path n) (m # post) st
         = for_each (copy_entry env repo repo_dir mods_path n) post
             (snd (copy_entry env repo repo_dir mods_path n m st))"
    using c2 by (cases "copy_entry env repo repo_dir mods_path n m st") simp
  have c6: "do_apply desktop stamp env mods repo mods_path [m] [] [] repo_dir False
         = (Inr [], \<lparr>live = mods, done_count = 1,
              apply_events = [(90, ''Copying: '' @ rel_path m, ''apply''),
                              (100, ''Done.'', ''apply'')],
              backup_zip = None\<rparr>)"
    by (simp add: do_apply_no_backup apply_phases_def entry report_def py_truediv_def)
  from body c2 c3 c4 c5 c6 show ?thesis by blast
qed

theorem missing_source_skipped_witness:
  "\<not> fm_is_dir (FileMeta ''gone.txt'' False)
   \<and> lookup sc_repo (split_path (rel_path (FileMeta ''gone.txt'' False))) = None
   \<and> copy_try nothing_denied sc_repo (FileMeta ''gone.txt'' False) sc_live = (None, sc_live)
   \<and> do_apply ''Desktop'' ''20240101_000000'' nothing_denied sc_live sc_repo ''Mods''
        [FileMeta ''gone.txt'' False] [] [] ''Repo'' False
       = (Inr [], \<lparr>live = sc_live, done_count = 1,
            apply_events = [(90, ''Copying: gone.txt'', ''apply''), (100, ''Done.'', ''apply'')],
            backup_zip = None\<rparr>)"
proof -
  have h1: "\<not> fm_is_dir (FileMeta ''gone.txt'' False)" by simp
  have h2: "lookup sc_repo (split_path (rel_path (FileMeta ''gone.txt'' False))) = None"
    by code_simp
  from missing_source_skipped [OF h1 h2, of nothing_denied sc_live "''Repo''" "''Mods''" _ _ _
      "''Desktop''" "''20240101_000000''" sc_live]
  show ?thesis using h1 h2 by simp
qed

section \<open>Further properties\<close>

subsection \<open>The diff of a map with itself\<close>

text \<open>
  \<open>Diff(A, A)\<close> has no deletion, addition or replacement, and every entry of \<open>A\<close> is in
  \<open>ignores\<close>, in the order of \<open>A\<close>.
\<close>

theorem diff_of_equal_maps:
  assumes "dict_ok a"
  shows "deletes (scan_all_diff a a) = []
     \<and> adds (scan_all_diff a a) = []
     \<and> replaces (scan_all_diff a a) = []
     \<and> ignores (scan_all_diff a a) = map (\<lambda>(k, m). FileMeta k (is_dir m)) a"
proof -
  have own: "map_of a k = Some v" if "(k, v) \<in> set a" for k v
    using that assms by (simp add: map_of_Some_mem)
  have none: "filter (\<lambda>(k, v). map_of a k = None) a = []"
    using own by (auto simp: filter_empty_conv)
  have rep: "filter (is_replace a) a = []"
    using own by (auto simp: filter_empty_conv is_replace_def)
  have ign: "filter (is_ignore a) a = a"
    using own by (auto simp: filter_id_conv is_ignore_def)
  show ?thesis
    by (simp add: scan_all_diff_def Let_def delete_loop_eq add_loop_eq common_loop_eq
          none rep ign)
qed

theorem diff_of_equal_maps_witness:
  "dict_ok scenario_live
   \<and> deletes (scan_all_diff scenario_live scenario_live) = []
   \<and> adds (scan_all_diff scenario_live scenario_live) = []
   \<and> replaces (scan_all_diff scenario_live scenario_live) = []
   \<and> ignores (scan_all_diff scenario_live scenario_live)
       = [FileMeta ''a.txt'' False, FileMeta ''b.txt'' False]"
proof -
  have a: "dict_ok scenario_live" by (simp add: dict_ok_def scenario_live_def)
  have "map (\<lambda>(k, m). FileMeta k (is_dir m)) scenario_live
      = [FileMeta ''a.txt'' False, FileMeta ''b.txt'' False]"
    by (simp add: scenario_live_def)
  with a diff_of_equal_maps [OF a] show ?thesis by simp
qed

subsection \<open>The scenario of the specification, from scan to apply\<close>

text \<open>
  Live tree \<open>{a.txt, b.txt}\<close>, reference \<open>{a.txt, c.txt}\<close> with the same \<open>a.txt\<close>: the
  diff of the two scans deletes \<open>b.txt\<close>, adds \<open>c.txt\<close>, replaces nothing and ignores
  \<open>a.txt\<close>; after the apply the live tree scans like the reference.
\<close>

theorem scenario_scan_diff_apply:
  "scan_all_diff (scan_dir_with_hashes byte_sum sc_live True)
       (scan_dir_with_hashes byte_sum sc_repo False)
     = \<lparr>deletes = [FileMeta ''b.txt'' False], adds = [FileMeta ''c.txt'' False],
        replaces = [], ignores = [FileMeta ''a.txt'' False]\<rparr>
   \<and> fst (do_apply ''Desktop'' ''20240101_000000'' nothing_denied sc_live sc_repo ''Mods''
        [FileMeta ''c.txt'' False] [FileMeta ''b.txt'' False] [] ''Repo'' False) = Inr []
   \<and> scan_dir_with_hashes byte_sum
        (live (snd (do_apply ''Desktop'' ''20240101_000000'' nothing_denied sc_live sc_repo
           ''Mods'' [FileMeta ''c.txt'' False] [FileMeta ''b.txt'' False] [] ''Repo'' False)))
        True
     = scan_dir_with_hashes byte_sum sc_repo False"
  by code_simp

subsection \<open>The backup of a tree without files, as \<open>_do_backup\<close> reports it\<close>

theorem do_backup_without_files:
  assumes "count_files (walk [] mods) = 0"
  shows "do_backup desktop stamp mods_path mods =
     \<lparr>outcome = Inr (desktop @ ''/'' @ BACKUP_PREFIX @ stamp @ ''.zip''),
      written_zip = Some [],
      backup_events =
        [(0, ''Starting backup...'', ''backup''),
         (70, ''Backup complete. (0/0)'', ''backup''),
         (70, ''Starting zip creation (0 files)...'', ''backup''),
         (100, ''Zip backup completed: '' @ desktop @ ''/'' @ BACKUP_PREFIX @ stamp @ ''.zip'',
          ''backup''),
         (100, ''Backup complete: '' @ desktop @ ''/'' @ BACKUP_PREFIX @ stamp @ ''.zip'',
          ''backup'')]\<rparr>"
proof -
  let ?bp = "desktop @ ''/'' @ BACKUP_PREFIX @ stamp"
  from copy_dir_all_without_files [OF assms, of mods_path ?bp "Some backup_copy_progress"]
  obtain c where copy: "copy_dir_all mods_path ?bp mods None (Some backup_copy_progress) =
           (None, \<lparr>dst = Some c, copied = 0,
                   copy_events = emit (Some backup_copy_progress) 100 ''Backup complete. (0/0)'' []\<rparr>)"
    and c: "nofiles c" by blast
  note zip = create_zip_backup_without_files [OF c, of "?bp @ ''.zip''" "Some backup_zip_progress"]
  show ?thesis
    using copy zip
    by (simp add: do_backup_def Let_def emit_def backup_copy_progress_def backup_zip_progress_def)
qed

theorem do_backup_without_files_witness:
  "count_files (walk [] saves_only_tree) = 0
   \<and> outcome (do_backup ''Desktop'' ''20240101_000000'' ''Mods'' saves_only_tree)
       = Inr ''Desktop/Mods_Backup_20240101_000000.zip''
   \<and> map fst (backup_events (do_backup ''Desktop'' ''20240101_000000'' ''Mods'' saves_only_tree))
       = [0, 70, 70, 100, 100]"
proof -
  have h: "count_files (walk [] saves_only_tree) = 0" by code_simp
  show ?thesis
    using h do_backup_without_files [OF h, of "''Desktop''" "''20240101_000000''" "''Mods''"]
    by (simp add: BACKUP_PREFIX_def)
qed

subsection \<open>Progress of an apply without the backup phase\<close>

text \<open>
  The invariant of the two loops: the percentages reported so far are non-decreasing
  and none exceeds the value for the current count of done entries.
\<close>

definition progress_ok :: "nat \<Rightarrow> apply_state \<Rightarrow> bool" where
  "progress_ok n st \<longleftrightarrow>
     sorted (map fst (apply_events st))
     \<and> list_all (\<lambda>e. fst e \<le> 20 + of_nat (done_count st) / of_nat n * 70) (apply_events st)"

lemma for_each_invariant:
  assumes "\<And>x s. P s \<Longrightarrow> P (snd (body x s))" and "P s"
  shows "P (snd (for_each body xs s))"
  using assms(2)
proof (induction xs arbitrary: s)
  case Nil
  then show ?case by simp
next
  case (Cons x xs)
  obtain r s1 where b: "body x s = (r, s1)" by (cases "body x s")
  with assms(1) [OF Cons.prems, of x] have p1: "P s1" by simp
  show ?case
  proof (cases r)
    case None
    with b Cons.IH [OF p1] show ?thesis by simp
  next
    case (Some e)
    with b p1 show ?thesis by simp
  qed
qed

lemma fraction_mono:
  "d \<le> d' \<Longrightarrow> (of_nat d :: rat) / of_nat n * 70 \<le> of_nat d' / of_nat n * 70"
  by (simp add: divide_right_mono)

lemma fraction_at_most_100:
  assumes "d \<le> n"
  shows "(20 :: rat) + of_nat d / of_nat n * 70 \<le> 100"
proof (cases "n = 0")
  case True
  then show ?thesis by simp
next
  case False
  then have pos: "(0 :: rat) < of_nat n" by simp
  have le: "(of_nat d :: rat) \<le> of_nat n" using assms by simp
  define q :: rat where "q = of_nat d / of_nat n"
  have "q \<le> 1"
    unfolding q_def using le by (subst divide_le_eq_1_pos [OF pos])
  then have "q * 70 \<le> 1 * 70" by (rule mult_right_mono) simp
  then show ?thesis unfolding q_def by simp
qed

lemma progress_ok_report:
  assumes "progress_ok n st" and "apply_events s' = apply_events st"
    and "done_count st \<le> done_count s'"
  shows "progress_ok n (snd (report n msg s'))"
proof -
  let ?b = "\<lambda>d. (20 :: rat) + of_nat d / of_nat n * 70"
  have le: "?b (done_count st) \<le> ?b (done_count s')"
    using fraction_mono [OF assms(3), of n] by simp
  have old: "list_all (\<lambda>e. fst e \<le> ?b (done_count s')) (apply_events st)"
    using assms(1) le by (auto simp: progress_ok_def list_all_iff)
  have srt: "sorted (map fst (apply_events st))"
    using assms(1) by (simp add: progress_ok_def)
  show ?thesis
  proof (cases "n > 0")
    case True
    then have "snd (report n msg s') =
        s'\<lparr>apply_events := apply_events st @ [(?b (done_count s'), msg, ''apply'')]\<rparr>"
      by (simp add: report_def py_truediv_def assms(2))
    moreover have "sorted (map fst (apply_events st) @ [?b (done_count s')])"
      using srt old by (auto simp: sorted_append list_all_iff)
    ultimately show ?thesis
      using old by (simp add: progress_ok_def)
  next
    case False
    then have "snd (report n msg s') = s'" by (simp add: report_def)
    with srt old assms(2) show ?thesis by (simp add: progress_ok_def)
  qed
qed

lemma progress_ok_delete_entry:
  assumes "progress_ok n st"
  shows "progress_ok n (snd (delete_entry env n meta st))"
proof (cases "stat_error env (split_path (rel_path meta))")
  case True
  with assms show ?thesis by (simp add: delete_entry_stat_error)
next
  case False
  have "progress_ok n (snd (report n (''Deleting: '' @ rel_path meta)
      (st\<lparr>live := (if lookup (live st) (split_path (rel_path meta)) \<noteq> None
                     then snd (delete_try (change_error env) meta (live st)) else live st),
           done_count := done_count st + 1\<rparr>)))"
    using assms by (rule progress_ok_report) simp_all
  with False show ?thesis by (simp add: delete_entry_def Let_def pathlib_exists_def)
qed

lemma progress_ok_copy_entry:
  assumes "progress_ok n st"
  shows "progress_ok n (snd (copy_entry env repo repo_dir mods_path n meta st))"
proof -
  obtain r t1 where c: "copy_try env repo meta (live st) = (r, t1)"
    by (cases "copy_try env repo meta (live st)")
  show ?thesis
  proof (cases r)
    case None
    have "progress_ok n (snd (report n (''Copying: '' @ rel_path meta)
        (st\<lparr>live := t1, done_count := done_count st + 1\<rparr>)))"
      using assms by (rule progress_ok_report) simp_all
    with c None show ?thesis by (simp add: copy_entry_def)
  next
    case (Some ex)
    with c assms show ?thesis by (simp add: copy_entry_def progress_ok_def)
  qed
qed

lemma copy_entry_done:
  "done_count (snd (copy_entry env repo repo_dir mods_path n meta st)) \<le> done_count st + 1"
proof -
  obtain r t1 where c: "copy_try env repo meta (live st) = (r, t1)"
    by (cases "copy_try env repo meta (live st)")
  then show ?thesis
    by (cases r) (simp_all add: copy_entry_def report_done)
qed

lemma for_each_done_le:
  assumes "\<And>x s. done_count (snd (body x s)) \<le> done_count s + 1"
  shows "done_count (snd (for_each body xs s)) \<le> done_count s + length xs"
proof (induction xs arbitrary: s)
  case Nil
  show ?case by simp
next
  case (Cons x xs)
  obtain r s1 where b: "body x s = (r, s1)" by (cases "body x s")
  with assms [of x s] have s1: "done_count s1 \<le> done_count s + 1" by simp
  show ?case
  proof (cases r)
    case None
    with b Cons.IH [of s1] s1 show ?thesis by simp
  next
    case (Some e)
    with b s1 show ?thesis by simp
  qed
qed

text \<open>
  Without the backup phase, the percentages an apply reports never go down, whether it
  returns or raises: they are \<open>20 + done / total * 70\<close> for a growing \<open>done\<close>, and 100
  at the end.
\<close>

theorem apply_progress_monotone:
  "sorted (map fst (apply_events (snd (do_apply desktop stamp env mods repo mods_path
      adds_l deletes_l replaces_l repo_dir False))))"
proof -
  let ?n = "length deletes_l + length adds_l + length replaces_l"
  let ?st0 = "\<lparr>live = mods, done_count = 0, apply_events = [], backup_zip = None\<rparr>"
  let ?l1 = "for_each (delete_entry env ?n) deletes_l ?st0"
  obtain r1 s1 where l1: "?l1 = (r1, s1)" by (cases ?l1)
  have ok0: "progress_ok ?n ?st0" by (simp add: progress_ok_def)
  have "progress_ok ?n (snd ?l1)"
    using ok0 by (rule for_each_invariant [rotated]) (rule progress_ok_delete_entry)
  then have ok1: "progress_ok ?n s1" by (simp add: l1)
  show ?thesis
  proof (cases r1)
    case (Some e1)
    with l1 ok1 show ?thesis
      by (simp add: do_apply_no_backup apply_phases_def Let_def progress_ok_def)
  next
    case None
    let ?l2 = "for_each (copy_entry env repo repo_dir mods_path ?n) (adds_l @ replaces_l) s1"
    obtain r s2 where l2: "?l2 = (r, s2)" by (cases ?l2)
    have "progress_ok ?n (snd ?l2)"
      using ok1 by (rule for_each_invariant [rotated]) (rule progress_ok_copy_entry)
    then have ok2: "progress_ok ?n s2" by (simp add: l2)
    have "done_count (snd ?l1) \<le> done_count ?st0 + length deletes_l"
      by (rule for_each_done_le) (rule delete_entry_done_le)
    then have d1: "done_count s1 \<le> length deletes_l" by (simp add: l1)
    have "done_count (snd ?l2) \<le> done_count s1 + length (adds_l @ replaces_l)"
      by (rule for_each_done_le) (rule copy_entry_done)
    with d1 have d2: "done_count s2 \<le> ?n" by (simp add: l2)
    have bound: "(20 :: rat) + of_nat (done_count s2) / of_nat ?n * 70 \<le> 100"
      using d2 by (rule fraction_at_most_100)
    have fin: "sorted (map fst (apply_events s2) @ [100 :: rat])"
      using ok2 bound by (auto simp: progress_ok_def sorted_append list_all_iff)
    show ?thesis
    proof (cases r)
      case None
      with \<open>r1 = None\<close> l1 l2 fin show ?thesis
        by (simp add: do_apply_no_backup apply_phases_def Let_def)
    next
      case (Some e)
      with \<open>r1 = None\<close> l1 l2 ok2 show ?thesis
        by (simp add: do_apply_no_backup apply_phases_def Let_def progress_ok_def)
    qed
  qed
qed

subsection \<open>The sources of an error of the apply\<close>

lemma do_apply_raises:
  assumes "fst (do_apply desktop stamp env mods repo mods_path adds_l deletes_l replaces_l
      repo_dir flag) = Inl msg"
  shows "(flag \<and> (\<exists>e. fst (backup_phase desktop stamp mods_path
                \<lparr>live = mods, done_count = 0, apply_events = [], backup_zip = None\<rparr>) = Inl e
             \<and> msg = ''Failed applying changes: '' @ e))
       \<or> (\<exists>d \<in> set deletes_l. stat_error env (split_path (rel_path d))
             \<and> msg = ''Failed applying changes: Permission denied'')
       \<or> (\<exists>m \<in> set (adds_l @ replaces_l). \<exists>ex.
             msg = ''Failed applying changes: Copy failed for ''
                     @ path_str env repo_dir (rel_path m) @ '' to ''
                     @ path_str env mods_path (rel_path m) @ '': '' @ ex)"
proof -
  let ?st = "\<lparr>live = mods, done_count = 0, apply_events = [], backup_zip = None\<rparr>"
  let ?phases = "apply_phases env repo repo_dir mods_path adds_l deletes_l replaces_l"
  have later: ?thesis if run: "fst (?phases s) = Some e" and msg: "msg = ''Failed applying changes: '' @ e"
    for s e
    using apply_phases_raises [OF run] msg by auto
  have split: "(\<exists>e. fst (?phases s) = Some e \<and> msg = ''Failed applying changes: '' @ e)"
    if "(case ?phases s of
           (Some e, st1) \<Rightarrow> (Inl (''Failed applying changes: '' @ e), st1)
         | (None, st1) \<Rightarrow> (Inr bp, st1)) = (Inl msg, s')" for s s' and bp :: string
  proof -
    obtain r st1 where p: "?phases s = (r, st1)" by (cases "?phases s")
    with that show ?thesis by (cases r) auto
  qed
  show ?thesis
  proof (cases flag)
    case False
    obtain s' where "do_apply desktop stamp env mods repo mods_path adds_l deletes_l replaces_l
        repo_dir False = (Inl msg, s')"
      using assms False
      by (cases "do_apply desktop stamp env mods repo mods_path adds_l deletes_l replaces_l
        repo_dir False") simp
    then have "(case ?phases ?st of
           (Some e, st1) \<Rightarrow> (Inl (''Failed applying changes: '' @ e), st1)
         | (None, st1) \<Rightarrow> (Inr ([] :: string), st1)) = (Inl msg, s')"
      by (simp add: do_apply_no_backup)
    from split [OF this] later show ?thesis by blast
  next
    case True
    obtain b st0 where bk: "backup_phase desktop stamp mods_path ?st = (b, st0)"
      by (cases "backup_phase desktop stamp mods_path ?st")
    show ?thesis
    proof (cases b)
      case (Inl e)
      with bk True assms have "msg = ''Failed applying changes: '' @ e"
        by (simp add: do_apply_def)
      with bk Inl True show ?thesis by simp
    next
      case (Inr bp)
      obtain s' where "do_apply desktop stamp env mods repo mods_path adds_l deletes_l replaces_l
          repo_dir flag = (Inl msg, s')"
        using assms
        by (cases "do_apply desktop stamp env mods repo mods_path adds_l deletes_l replaces_l
          repo_dir flag") simp
      with bk Inr True have "(case ?phases st0 of
             (Some e, st1) \<Rightarrow> (Inl (''Failed applying changes: '' @ e), st1)
           | (None, st1) \<Rightarrow> (Inr bp, st1)) = (Inl msg, s')"
        by (simp add: do_apply_def)
      from split [OF this] later show ?thesis by blast
    qed
  qed
qed

lemma copy_failure_is_fatal:
  assumes "for_each (delete_entry env (length deletes_l + length adds_l + length replaces_l))
             deletes_l (st\<lparr>done_count := 0\<rparr>) = (None, s1)"
    and "adds_l @ replaces_l = pre @ m # post"
    and "for_each (copy_entry env repo repo_dir mods_path
             (length deletes_l + length adds_l + length replaces_l)) pre s1 = (None, s2)"
    and "copy_try env repo m (live s2) = (Some ex, t1)"
  shows "apply_phases env repo repo_dir mods_path adds_l deletes_l replaces_l st =
     (Some (''Copy failed for '' @ path_str env repo_dir (rel_path m) @ '' to ''
              @ path_str env mods_path (rel_path m) @ '': '' @ ex), s2\<lparr>live := t1\<rparr>)"
proof -
  let ?n = "length deletes_l + length adds_l + length replaces_l"
  let ?cp = "copy_entry env repo repo_dir mods_path ?n"
  have "for_each ?cp (pre @ m # post) s1 = for_each ?cp (m # post) s2"
    using assms(3) by (rule for_each_append)
  also have "\<dots> = (Some (''Copy failed for '' @ path_str env repo_dir (rel_path m) @ '' to ''
              @ path_str env mods_path (rel_path m) @ '': '' @ ex), s2\<lparr>live := t1\<rparr>)"
    using copy_entry_fails [OF assms(4), of repo_dir mods_path ?n] by simp
  finally show ?thesis
    using assms(1,2) by (simp add: apply_phases_def)
qed

text \<open>
  Where an error of the apply can come from, with or without the backup phase and from
  any state the backup phase leaves.

  When \<open>stat\<close> works on the target of every deletion entry, the deletion loop never
  raises, whatever fails inside the \<open>try\<close> of an entry, and handles every entry; an apply
  with deletions only returns normally. An exception of the two loops is the error of
  the existence test of a deletion target, or it comes from an addition or replacement
  entry and names its source and destination paths; an exception of the whole apply is
  one of these two or the error of the backup phase. And when the body of an addition or
  replacement entry raises, after the deletions and the entries before it went through,
  the apply stops at that entry with its error: the final state is the one at the
  failure.
\<close>

theorem apply_error_sources:
  "((\<forall>d \<in> set deletes_l. \<not> stat_error env (split_path (rel_path d))) \<longrightarrow>
       fst (for_each (delete_entry env n) deletes_l st) = None
       \<and> done_count (snd (for_each (delete_entry env n) deletes_l st))
           = done_count st + length deletes_l
       \<and> fst (apply_phases env repo repo_dir mods_path [] deletes_l [] st) = None
       \<and> fst (do_apply desktop stamp env mods repo mods_path [] deletes_l [] repo_dir False)
           = Inr [])
   \<and> (\<forall>e. fst (apply_phases env repo repo_dir mods_path adds_l deletes_l replaces_l st) = Some e
         \<longrightarrow>
         (\<exists>d \<in> set deletes_l. stat_error env (split_path (rel_path d))
             \<and> e = ''Permission denied'')
         \<or> (\<exists>m \<in> set (adds_l @ replaces_l). \<exists>ex.
               e = ''Copy failed for '' @ path_str env repo_dir (rel_path m) @ '' to ''
                     @ path_str env mods_path (rel_path m) @ '': '' @ ex))
   \<and> (\<forall>msg. fst (do_apply desktop stamp env mods repo mods_path adds_l deletes_l replaces_l
                    repo_dir flag) = Inl msg \<longrightarrow>
         (flag \<and> (\<exists>e. fst (backup_phase desktop stamp mods_path
                \<lparr>live = mods, done_count = 0, apply_events = [], backup_zip = None\<rparr>) = Inl e
             \<and> msg = ''Failed applying changes: '' @ e))
         \<or> (\<exists>d \<in> set deletes_l. stat_error env (split_path (rel_path d))
               \<and> msg = ''Failed applying changes: Permission denied'')
         \<or> (\<exists>m \<in> set (adds_l @ replaces_l). \<exists>ex.
               msg = ''Failed applying changes: Copy failed for ''
                       @ path_str env repo_dir (rel_path m) @ '' to ''
                       @ path_str env mods_path (rel_path m) @ '': '' @ ex))
   \<and> (\<forall>pre m post s1 s2 ex t1.
         for_each (delete_entry env (length deletes_l + length adds_l + length replaces_l))
             deletes_l (st\<lparr>done_count := 0\<rparr>) = (None, s1)
         \<and> adds_l @ replaces_l = pre @ m # post
         \<and> for_each (copy_entry env repo repo_dir mods_path
               (length deletes_l + length adds_l + length replaces_l)) pre s1 = (None, s2)
         \<and> copy_try env repo m (live s2) = (Some ex, t1) \<longrightarrow>
         apply_phases env repo repo_dir mods_path adds_l deletes_l replaces_l st =
           (Some (''Copy failed for '' @ path_str env repo_dir (rel_path m) @ '' to ''
                    @ path_str env mods_path (rel_path m) @ '': '' @ ex),
            s2\<lparr>live := t1\<rparr>))"
proof (intro conjI impI allI)
  assume ok: "\<forall>d \<in> set deletes_l. \<not> stat_error env (split_path (rel_path d))"
  show "fst (for_each (delete_entry env n) deletes_l st) = None"
    using ok by (rule delete_loop_completes(1))
  show "done_count (snd (for_each (delete_entry env n) deletes_l st))
      = done_count st + length deletes_l"
    using ok by (rule delete_loop_completes(2))
  have run: "fst (apply_phases env repo repo_dir mods_path [] deletes_l [] s) = None" for s
  proof -
    obtain r s1 where l: "for_each (delete_entry env (length deletes_l)) deletes_l
        (s\<lparr>done_count := 0\<rparr>) = (r, s1)"
      by (cases "for_each (delete_entry env (length deletes_l)) deletes_l (s\<lparr>done_count := 0\<rparr>)")
    with delete_loop_completes(1) [OF ok, of "length deletes_l" "s\<lparr>done_count := 0\<rparr>"]
    have "r = None" by simp
    with l show ?thesis by (simp add: apply_phases_def)
  qed
  show "fst (apply_phases env repo repo_dir mods_path [] deletes_l [] st) = None"
    by (rule run)
  show "fst (do_apply desktop stamp env mods repo mods_path [] deletes_l [] repo_dir False)
      = Inr []"
    using run [of "\<lparr>live = mods, done_count = 0, apply_events = [], backup_zip = None\<rparr>"]
    by (cases "apply_phases env repo repo_dir mods_path [] deletes_l []
          \<lparr>live = mods, done_count = 0, apply_events = [], backup_zip = None\<rparr>")
      (simp add: do_apply_no_backup)
next
  fix e
  assume "fst (apply_phases env repo repo_dir mods_path adds_l deletes_l replaces_l st) = Some e"
  then show "(\<exists>d \<in> set deletes_l. stat_error env (split_path (rel_path d))
             \<and> e = ''Permission denied'')
         \<or> (\<exists>m \<in> set (adds_l @ replaces_l). \<exists>ex.
               e = ''Copy failed for '' @ path_str env repo_dir (rel_path m) @ '' to ''
                     @ path_str env mods_path (rel_path m) @ '': '' @ ex)"
    by (rule apply_phases_raises)
next
  fix msg
  assume "fst (do_apply desktop stamp env mods repo mods_path adds_l deletes_l replaces_l
                    repo_dir flag) = Inl msg"
  then show "(flag \<and> (\<exists>e. fst (backup_phase desktop stamp mods_path
                \<lparr>live = mods, done_count = 0, apply_events = [], backup_zip = None\<rparr>) = Inl e
             \<and> msg = ''Failed applying changes: '' @ e))
         \<or> (\<exists>d \<in> set deletes_l. stat_error env (split_path (rel_path d))
               \<and> msg = ''Failed applying changes: Permission denied'')
         \<or> (\<exists>m \<in> set (adds_l @ replaces_l). \<exists>ex.
               msg = ''Failed applying changes: Copy failed for ''
                       @ path_str env repo_dir (rel_path m) @ '' to ''
                       @ path_str env mods_path (rel_path m) @ '': '' @ ex)"
    by (rule do_apply_raises)
next
  fix pre m post s1 s2 ex t1
  assume "for_each (delete_entry env (length deletes_l + length adds_l + length replaces_l))
             deletes_l (st\<lparr>done_count := 0\<rparr>) = (None, s1)
         \<and> adds_l @ replaces_l = pre @ m # post
         \<and> for_each (copy_entry env repo repo_dir mods_path
               (length deletes_l + length adds_l + length replaces_l)) pre s1 = (None, s2)
         \<and> copy_try env repo m (live s2) = (Some ex, t1)"
  then show "apply_phases env repo repo_dir mods_path adds_l deletes_l replaces_l st =
           (Some (''Copy failed for '' @ path_str env repo_dir (rel_path m) @ '' to ''
                    @ path_str env mods_path (rel_path m) @ '': '' @ ex),
            s2\<lparr>live := t1\<rparr>)"
    by (elim conjE) (rule copy_failure_is_fatal)
qed

theorem apply_error_sources_witness:
  "\<not> stat_error b_c_denied (split_path (rel_path (FileMeta ''b.txt'' False)))
   \<and> fst (delete_try (change_error b_c_denied) (FileMeta ''b.txt'' False) sc_live)
       = Some ''Permission denied''
   \<and> fst (do_apply ''Desktop'' ''20240101_000000'' b_c_denied sc_live sc_repo ''Mods''
            [] [FileMeta ''b.txt'' False] [] ''Repo'' False) = Inr []
   \<and> copy_try b_c_denied sc_repo (FileMeta ''c.txt'' False) sc_live
        = (Some ''Permission denied'', sc_live)
   \<and> apply_phases b_c_denied sc_repo ''Repo'' ''Mods''
        [FileMeta ''c.txt'' False] [FileMeta ''b.txt'' False] []
        \<lparr>live = sc_live, done_count = 0, apply_events = [], backup_zip = None\<rparr>
        = (Some ''Copy failed for Repo/c.txt to Mods/c.txt: Permission denied'',
           \<lparr>live = sc_live, done_count = 1,
            apply_events = [(55, ''Deleting: b.txt'', ''apply'')], backup_zip = None\<rparr>)"
proof -
  let ?st0 = "\<lparr>live = sc_live, done_count = 0, apply_events = [], backup_zip = None\<rparr>"
  let ?st1 = "\<lparr>live = sc_live, done_count = 1,
      apply_events = [(55, ''Deleting: b.txt'', ''apply'')], backup_zip = None\<rparr>"
  let ?n = "length [FileMeta ''b.txt'' False] + length [FileMeta ''c.txt'' False]
      + length ([] :: FileMeta list)"
  have ok: "\<not> stat_error b_c_denied (split_path (rel_path (FileMeta ''b.txt'' False)))"
    by (simp add: b_c_denied_def)
  have raised: "fst (delete_try (change_error b_c_denied) (FileMeta ''b.txt'' False) sc_live)
      = Some ''Permission denied''"
    by code_simp
  have loop: "for_each (delete_entry b_c_denied ?n) [FileMeta ''b.txt'' False]
      (?st0\<lparr>done_count := 0\<rparr>) = (None, ?st1)"
    by code_simp
  have fail: "copy_try b_c_denied sc_repo (FileMeta ''c.txt'' False) (live ?st1)
      = (Some ''Permission denied'', sc_live)"
    by code_simp
  have text_src: "path_str b_c_denied ''Repo'' (rel_path (FileMeta ''c.txt'' False)) = ''Repo/c.txt''"
    by code_simp
  have text_dst: "path_str b_c_denied ''Mods'' (rel_path (FileMeta ''c.txt'' False)) = ''Mods/c.txt''"
    by code_simp
  note only_deletes = apply_error_sources [
      where env = b_c_denied and deletes_l = "[FileMeta ''b.txt'' False]"
        and mods = sc_live and repo = sc_repo
        and desktop = "''Desktop''" and stamp = "''20240101_000000''"
        and mods_path = "''Mods''" and repo_dir = "''Repo''",
      THEN conjunct1, THEN mp]
  have a: "fst (do_apply ''Desktop'' ''20240101_000000'' b_c_denied sc_live sc_repo ''Mods''
      [] [FileMeta ''b.txt'' False] [] ''Repo'' False) = Inr []"
    using only_deletes ok by simp
  note fatal = apply_error_sources [
      where env = b_c_denied and deletes_l = "[FileMeta ''b.txt'' False]"
        and adds_l = "[FileMeta ''c.txt'' False]" and replaces_l = "[]"
        and repo = sc_repo and mods_path = "''Mods''" and repo_dir = "''Repo''"
        and st = ?st0,
      THEN conjunct2, THEN conjunct2, THEN conjunct2, rule_format,
      where pre = "[]" and m = "FileMeta ''c.txt'' False" and post = "[]" and ?s1.0 = ?st1
        and ?s2.0 = ?st1 and ex = "''Permission denied''" and ?t1.0 = sc_live]
  have "apply_phases b_c_denied sc_repo ''Repo'' ''Mods''
        [FileMeta ''c.txt'' False] [FileMeta ''b.txt'' False] [] ?st0
        = (Some (''Copy failed for ''
                  @ path_str b_c_denied ''Repo'' (rel_path (FileMeta ''c.txt'' False)) @ '' to ''
                  @ path_str b_c_denied ''Mods'' (rel_path (FileMeta ''c.txt'' False)) @ '': ''
                  @ ''Permission denied''),
           ?st1\<lparr>live := sc_live\<rparr>)"
  proof (rule fatal, intro conjI)
    show "for_each (delete_entry b_c_denied ?n) [FileMeta ''b.txt'' False]
        (?st0\<lparr>done_count := 0\<rparr>) = (None, ?st1)"
      by (rule loop)
    show "[FileMeta ''c.txt'' False] @ [] = [] @ FileMeta ''c.txt'' False # []" by simp
    show "for_each (copy_entry b_c_denied sc_repo ''Repo'' ''Mods'' ?n) [] ?st1 = (None, ?st1)"
      by (rule for_each.simps)
    show "copy_try b_c_denied sc_repo (FileMeta ''c.txt'' False) (live ?st1)
        = (Some ''Permission denied'', sc_live)"
      by (rule fail)
  qed
  then have b: "apply_phases b_c_denied sc_repo ''Repo'' ''Mods''
        [FileMeta ''c.txt'' False] [FileMeta ''b.txt'' False] [] ?st0
        = (Some ''Copy failed for Repo/c.txt to Mods/c.txt: Permission denied'', ?st1)"
    unfolding text_src text_dst by simp
  from ok raised a fail b show ?thesis by simp
qed

end
